theory Spec2Isabelle
  imports Main
begin

section \<open>Values exchanged with the service\<close>

text \<open>
  Parsed JSON, as \<open>response.json()\<close> and \<open>JSON.parse\<close> return it. Numbers are
  integers (milliseconds, seconds, status codes and identifiers are all the client computes
  with). An object is an association list; a lookup takes the first binding of a key.
\<close>

datatype json =
    JNull
  | JBool bool
  | JNum int
  | JStr string
  | JArr "json list"
  | JObj "(string \<times> json) list"

text \<open>
  A JavaScript variable of type \<open>T | null\<close> is a \<open>json option\<close>; \<open>None\<close> is
  \<open>null\<close>/\<open>undefined\<close>. \<open>getProp k v\<close> is the optional-chaining read \<open>v?.k\<close>.
\<close>

fun getProp :: "string \<Rightarrow> json option \<Rightarrow> json option" where
  "getProp k (Some (JObj kvs)) = map_of kvs k"
| "getProp k _ = None"

text \<open>JavaScript truthiness, as used by \<open>!!x\<close>, \<open>x && y\<close>, \<open>x || y\<close> and \<open>if (x)\<close>.\<close>

fun truthy :: "json option \<Rightarrow> bool" where
  "truthy None = False"
| "truthy (Some JNull) = False"
| "truthy (Some (JBool b)) = b"
| "truthy (Some (JNum n)) = (n \<noteq> 0)"
| "truthy (Some (JStr s)) = (s \<noteq> [])"
| "truthy (Some (JArr xs)) = True"
| "truthy (Some (JObj kvs)) = True"

text \<open>\<open>a || b\<close> on values.\<close>

definition or_else :: "json option \<Rightarrow> json option \<Rightarrow> json option" where
  "or_else a b = (if truthy a then a else b)"

text \<open>
  A \<open>Date\<close> is a millisecond timestamp, or the invalid date that \<open>new Date(NaN)\<close>
  builds. Every comparison with the invalid date is false.
\<close>

datatype date = Date int | InvalidDate

fun date_minus :: "date \<Rightarrow> int \<Rightarrow> date" where
  "date_minus (Date t) k = Date (t - k)"
| "date_minus InvalidDate k = InvalidDate"

fun date_lt :: "int \<Rightarrow> date \<Rightarrow> bool" where
  "date_lt now (Date t) = (now < t)"
| "date_lt now InvalidDate = False"

fun date_ge :: "int \<Rightarrow> date \<Rightarrow> bool" where
  "date_ge now (Date t) = (now \<ge> t)"
| "date_ge now InvalidDate = False"

text \<open>
  \<open>tokenData.expires_in * 1000\<close>: the product is a number when \<open>expires_in\<close> is one, as
  the type \<open>CakemailToken\<close> declares; \<open>null\<close> and booleans are coerced as JavaScript
  does; anything else gives \<open>NaN\<close> (\<open>None\<close>).
\<close>

fun toNumber :: "json option \<Rightarrow> int option" where
  "toNumber (Some (JNum n)) = Some n"
| "toNumber (Some JNull) = Some 0"
| "toNumber (Some (JBool b)) = Some (if b then 1 else 0)"
| "toNumber _ = None"

text \<open>\<open>s.includes(sub)\<close> on strings.\<close>

fun str_includes :: "string \<Rightarrow> string \<Rightarrow> bool" where
  "str_includes [] sub = (sub = [])"
| "str_includes (x # xs) sub = (take (length sub) (x # xs) = sub \<or> str_includes xs sub)"

record response =
  status :: nat
  statusText :: string
  contentType :: "string option"
  bodyText :: "string option"
  bodyJson :: "json option"

text \<open>
  \<open>contentType\<close> is \<open>response.headers.get('content-type')\<close>. \<open>bodyText\<close> is what
  \<open>response.text()\<close> resolves to (\<open>None\<close>: reading the body fails); \<open>bodyJson\<close> is
  \<open>JSON.parse\<close> of that text (\<open>None\<close>: the text is not JSON).
\<close>

definition ok :: "response \<Rightarrow> bool" where
  "ok r = (200 \<le> status r \<and> status r \<le> 299)"

section \<open>Errors\<close>

datatype auth_failure =
    AuthenticationFailed nat "json option"
  | NoRefreshTokenAvailable
  | RefreshTokenInvalid
  | TokenRefreshFailed nat string
  | NoAuthenticationToken

datatype error =
    JsError string
  | CakemailAuthenticationError auth_failure "json option"
  | CakemailNetworkError string
  | CakemailApiError nat json
  | CircuitOpenError

text \<open>
  \<open>JsError\<close> is any error the client does not construct itself: a rejection of
  \<open>fetch\<close>, a failing \<open>response.json()\<close>, a plain \<open>new Error(...)\<close>. The message of a
  \<open>CakemailAuthenticationError\<close> is kept in structured form (\<open>auth_failure\<close>) instead of
  the interpolated text; its second argument is the \<open>errorBody\<close> passed to the constructor.
\<close>

section \<open>The world: clock, network, observable effects\<close>

datatype grant = PasswordGrant | RefreshGrant json

text \<open>
  An endpoint is a path with its query parameters; the model keeps the query as the list
  of pairs that the source hands to \<open>URLSearchParams\<close>, not as the encoded string.
\<close>

type_synonym endpoint = "string \<times> (string \<times> json) list"

datatype request =
    TokenRequest grant
  | ApiRequest string endpoint "json option"

text \<open>
  \<open>TokenRequest\<close> is the POST to \<open>/token\<close> with the given \<open>grant_type\<close> (and refresh
  token); \<open>ApiRequest httpMethod endpoint access_token\<close> is a call of an API endpoint with
  its bearer token.
\<close>

datatype reply = Rejected string | Responded response

datatype stage =
    EnsureValidToken
  | QueueAdmission
  | CircuitBreakerGate
  | RetryAttempt nat
  | RateLimiterAcquire

datatype event =
    Fetch request
  | Sleep int
  | Enter stage

record world =
  clock :: int
  fetches :: nat
  net :: "nat \<Rightarrow> reply"
  lag :: "nat \<Rightarrow> nat"
  trace :: "event list"

text \<open>
  \<open>clock\<close> is \<open>Date.now()\<close>. The \<open>n\<close>-th \<open>fetch\<close> the client issues settles after
  \<open>lag n\<close> milliseconds with \<open>net n\<close>. \<open>trace\<close> records, oldest first, every request
  sent, every timer awaited and every stage entered.
\<close>

definition emit :: "event \<Rightarrow> world \<Rightarrow> world" where
  "emit e w = w\<lparr>trace := trace w @ [e]\<rparr>"

definition fetch :: "request \<Rightarrow> world \<Rightarrow> reply \<times> world" where
  "fetch req w =
     (net w (fetches w),
      w\<lparr>clock := clock w + int (lag w (fetches w)),
        fetches := fetches w + 1,
        trace := trace w @ [Fetch req]\<rparr>)"

text \<open>\<open>await new Promise(resolve => setTimeout(resolve, ms))\<close>.\<close>

definition sleep :: "int \<Rightarrow> world \<Rightarrow> world" where
  "sleep ms w = w\<lparr>clock := clock w + ms, trace := trace w @ [Sleep ms]\<rparr>"

section \<open>The client: credential lifecycle\<close>

record client =
  token :: "json option"
  mockToken :: "json option"
  tokenExpiry :: "date option"
  currentAccountId :: "json option"

type_synonym 'a result = "(error + 'a) \<times> client \<times> world"

text \<open>\<open>await response.json()\<close>: rejects when the body cannot be read or parsed.\<close>

definition response_json :: "response \<Rightarrow> error + json" where
  "response_json r =
     (case bodyText r of
        None \<Rightarrow> Inl (JsError ''body unreadable'')
      | Some t \<Rightarrow> (case bodyJson r of
                    None \<Rightarrow> Inl (JsError ''invalid json response body'')
                  | Some j \<Rightarrow> Inr j))"

definition parseErrorResponse :: "response \<Rightarrow> json" where
  "parseErrorResponse r =
     (if contentType r \<noteq> None \<and> str_includes (the (contentType r)) ''application/json'' then
        (case response_json r of
           Inr j \<Rightarrow> j
         | Inl e \<Rightarrow> JObj [(''detail'', JStr (statusText r))])
      else
        (case bodyText r of
           None \<Rightarrow> JObj [(''detail'', JStr (statusText r))]
         | Some t \<Rightarrow>
             (case bodyJson r of
                Some j \<Rightarrow> j
              | None \<Rightarrow> JObj [(''detail'', JStr (if t \<noteq> [] then t else statusText r))])))"



definition storedExpiry :: "int \<Rightarrow> json \<Rightarrow> date" where
  "storedExpiry now tokenData =
     (case toNumber (getProp ''expires_in'' (Some tokenData)) of
        Some n \<Rightarrow> Date (now + n * 1000 - 60000)
      | None \<Rightarrow> InvalidDate)"

definition passwordAuthenticate :: "client \<Rightarrow> world \<Rightarrow> unit result" where
  "passwordAuthenticate c w =
     (case fetch (TokenRequest PasswordGrant) w of
        (Rejected msg, w') \<Rightarrow> (Inl (JsError msg), c, w')
      | (Responded r, w') \<Rightarrow>
          if \<not> ok r then
            (let errorBody = parseErrorResponse r in
             (Inl (CakemailAuthenticationError
                     (AuthenticationFailed (status r)
                        (or_else (getProp ''error_description'' (Some errorBody))
                          (or_else (getProp ''message'' (Some errorBody))
                            (or_else (getProp ''error'' (Some errorBody))
                              (Some (JStr (statusText r)))))))
                     (Some errorBody)), c, w'))
          else
            (case response_json r of
               Inl e \<Rightarrow> (Inl e, c, w')
             | Inr tokenData \<Rightarrow>
                 (Inr (),
                  c\<lparr>token := Some tokenData,
                    tokenExpiry := Some (storedExpiry (clock w') tokenData)\<rparr>,
                  w')))"

definition refreshToken :: "client \<Rightarrow> world \<Rightarrow> unit result" where
  "refreshToken c w =
     (if \<not> truthy (getProp ''refresh_token'' (token c)) then
        (Inl (CakemailAuthenticationError NoRefreshTokenAvailable None), c, w)
      else
        (case fetch (TokenRequest (RefreshGrant (the (getProp ''refresh_token'' (token c))))) w of
           (Rejected msg, w') \<Rightarrow> (Inl (JsError msg), c, w')
         | (Responded r, w') \<Rightarrow>
             if \<not> ok r then
               (let errorBody = parseErrorResponse r in
                if status r = 401 \<or> status r = 403 then
                  (Inl (CakemailAuthenticationError RefreshTokenInvalid (Some errorBody)),
                   c\<lparr>token := None, tokenExpiry := None\<rparr>, w')
                else
                  (Inl (CakemailAuthenticationError
                          (TokenRefreshFailed (status r) (statusText r)) (Some errorBody)),
                   c, w'))
             else
               (case response_json r of
                  Inl e \<Rightarrow> (Inl e, c, w')
                | Inr tokenData \<Rightarrow>
                    (Inr (),
                     c\<lparr>token := Some tokenData,
                       tokenExpiry := Some (storedExpiry (clock w') tokenData)\<rparr>,
                     w'))))"

text \<open>
  The body of the \<open>try\<close> block of \<open>authenticate\<close>: a refresh first when a refresh token is
  stored and the stored expiry is more than five minutes away, then the password grant.
\<close>

definition authenticate_attempt :: "client \<Rightarrow> world \<Rightarrow> unit result" where
  "authenticate_attempt c w =
     (if truthy (getProp ''refresh_token'' (token c)) \<and> tokenExpiry c \<noteq> None
         \<and> date_lt (clock w) (date_minus (the (tokenExpiry c)) 300000)
      then
        (case refreshToken c w of
           (Inr u, c', w') \<Rightarrow> (Inr u, c', w')
         | (Inl e, c', w') \<Rightarrow> passwordAuthenticate c' w')
      else passwordAuthenticate c w)"

definition maxRetries :: nat where
  "maxRetries = 3"

function authenticate_loop :: "nat \<Rightarrow> client \<Rightarrow> world \<Rightarrow> unit result" where
  "authenticate_loop retryCount c w =
     (if retryCount < maxRetries then
        (case authenticate_attempt c w of
           (Inr u, c', w') \<Rightarrow> (Inr u, c', w')
         | (Inl e, c', w') \<Rightarrow>
             if retryCount + 1 \<ge> maxRetries then (Inl e, c', w')
             else authenticate_loop (retryCount + 1) c'
                    (sleep (2 ^ (retryCount + 1) * 1000) w'))
      else (Inr (), c, w))"
  by pat_completeness auto
termination
  by (relation "measure (\<lambda>(retryCount, c, w). maxRetries - retryCount)") auto

definition authenticate :: "client \<Rightarrow> world \<Rightarrow> unit result" where
  "authenticate c w = authenticate_loop 0 c w"

record token_status =
  hasToken :: bool
  isExpired :: bool
  expiresAt :: "date option"
  needsRefresh :: bool
  tokenType :: "json option"
  hasRefreshToken :: bool

text \<open>
  \<open>getTokenStatus\<close>; the field \<open>timeUntilExpiry\<close>, a difference that no caller reads,
  is left out.
\<close>

definition getTokenStatus :: "client \<Rightarrow> int \<Rightarrow> token_status" where
  "getTokenStatus c now =
     (let hasTok = truthy (getProp ''access_token'' (token c)) in
      \<lparr>hasToken = hasTok,
       isExpired = (case tokenExpiry c of Some d \<Rightarrow> date_ge now d | None \<Rightarrow> \<not> hasTok),
       expiresAt = tokenExpiry c,
       needsRefresh =
         (if hasTok \<and> tokenExpiry c \<noteq> None
          then date_ge now (date_minus (the (tokenExpiry c)) 300000)
          else \<not> hasTok),
       tokenType = or_else (getProp ''token_type'' (token c)) None,
       hasRefreshToken = truthy (getProp ''refresh_token'' (token c))\<rparr>)"

definition ensureValidToken :: "client \<Rightarrow> world \<Rightarrow> unit result" where
  "ensureValidToken c w0 =
     (let w = emit (Enter EnsureValidToken) w0 in
      if truthy (mockToken c) then (Inr (), c, w)
      else
        (let st = getTokenStatus c (clock w) in
         if \<not> hasToken st \<or> isExpired st then authenticate c w
         else if needsRefresh st \<and> hasRefreshToken st then
           (case refreshToken c w of
              (Inr u, c', w') \<Rightarrow> (Inr u, c', w')
            | (Inl e, c', w') \<Rightarrow> authenticate c' w')
         else (Inr (), c, w)))"

section \<open>Observations on traces\<close>

text \<open>The number of password-grant requests sent so far, and the events a run added.\<close>

definition passwordFetches :: "world \<Rightarrow> nat" where
  "passwordFetches w = length (filter (\<lambda>e. e = Fetch (TokenRequest PasswordGrant)) (trace w))"

definition newEvents :: "world \<Rightarrow> world \<Rightarrow> event list" where
  "newEvents w w' = drop (length (trace w)) (trace w')"

section \<open>Sample inputs\<close>

definition tokenReply :: "json \<Rightarrow> reply" where
  "tokenReply td = Responded \<lparr>status = 200, statusText = ''OK'',
      contentType = Some ''application/json'', bodyText = Some ''{...}'', bodyJson = Some td\<rparr>"

definition errorReply :: "nat \<Rightarrow> reply" where
  "errorReply code = Responded \<lparr>status = code, statusText = ''ERR'',
      contentType = Some ''text/plain'', bodyText = Some ''no'', bodyJson = None\<rparr>"

definition sampleToken :: json where
  "sampleToken = JObj [(''access_token'', JStr ''a1''), (''refresh_token'', JStr ''r1''),
                       (''token_type'', JStr ''bearer''), (''expires_in'', JNum 3600)]"

definition freshClient :: client where
  "freshClient = \<lparr>token = None, mockToken = None, tokenExpiry = None, currentAccountId = None\<rparr>"

definition worldOf :: "(nat \<Rightarrow> reply) \<Rightarrow> world" where
  "worldOf f = \<lparr>clock = 1000, fetches = 0, net = f, lag = (\<lambda>n. 5), trace = []\<rparr>"


definition renewedToken :: json where
  "renewedToken = JObj [(''access_token'', JStr ''a2''), (''refresh_token'', JStr ''r2''),
                       (''token_type'', JStr ''bearer''), (''expires_in'', JNum 3600)]"

definition agingClient :: client where
  "agingClient = \<lparr>token = Some sampleToken, mockToken = None,
                   tokenExpiry = Some (Date 200000), currentAccountId = None\<rparr>"

definition flakyRefresh :: world where
  "flakyRefresh = worldOf (\<lambda>n. if n = 0 then errorReply 500 else tokenReply renewedToken)"

definition afterFallback :: "unit result" where
  "afterFallback = ensureValidToken agingClient flakyRefresh"

definition lockedOut :: world where
  "lockedOut = worldOf (\<lambda>n. errorReply 401)"

definition mockedClient :: client where
  "mockedClient = \<lparr>token = Some sampleToken, mockToken = Some renewedToken,
                    tokenExpiry = Some (Date 200000), currentAccountId = None\<rparr>"

definition revokedThenGranted :: world where
  "revokedThenGranted = worldOf (\<lambda>n. if n = 0 then errorReply 401 else tokenReply renewedToken)"

definition afterRevocation :: "unit result" where
  "afterRevocation = refreshToken agingClient revokedThenGranted"

definition afterRecovery :: "unit result" where
  "afterRecovery = ensureValidToken (fst (snd afterRevocation)) (snd (snd afterRevocation))"

definition mockedAfterRevocation :: "unit result" where
  "mockedAfterRevocation = refreshToken mockedClient revokedThenGranted"

definition mockedNextCall :: "unit result" where
  "mockedNextCall =
     ensureValidToken (fst (snd mockedAfterRevocation)) (snd (snd mockedAfterRevocation))"

section \<open>The request executor\<close>

datatype circuit_state = Closed | Open | HalfOpen

record breaker =
  failureThreshold :: nat
  resetTimeout :: int
  circuitState :: circuit_state
  consecutiveFailures :: nat
  openedAt :: int

record retry_policy =
  maxAttempts :: nat
  baseDelay :: nat
  maxDelay :: nat
  jitter :: "nat \<Rightarrow> int"

record pipeline =
  timeout :: nat
  rateLimiter :: bool
  circuitBreaker :: "breaker option"
  retryPolicy :: retry_policy

text \<open>
  The fields of \<open>BaseApiClient\<close> that hold the resilience components: \<open>timeout\<close>,
  \<open>rateLimiter\<close> (present or \<open>null\<close>), \<open>circuitBreaker\<close> (present, with its state, or
  \<open>null\<close>) and the policy of \<open>retryManager\<close>.
\<close>

text \<open>
  Modelled from the spec: \<open>withTimeout\<close> (\<open>types/retry.ts\<close>, not among the sources). The
  spec, section 4.6: a fixed per-call timeout aborts the network call and raises a
  timeout-classified error if exceeded. The request is sent; when it has not settled after
  \<open>ms\<close> milliseconds the call rejects with a \<open>CakemailNetworkError\<close>, the one error that
  the \<open>catch\<close> block of \<open>executeRequest\<close> re-throws as it is.
\<close>

definition withTimeout :: "nat \<Rightarrow> request \<Rightarrow> world \<Rightarrow> (error + response) \<times> world" where
  "withTimeout ms req w =
     (if lag w (fetches w) > ms then
        (Inl (CakemailNetworkError ''timed out''),
         w\<lparr>clock := clock w + int ms, fetches := fetches w + 1,
           trace := trace w @ [Fetch req]\<rparr>)
      else
        (case fetch req w of
           (Rejected msg, w') \<Rightarrow> (Inl (JsError msg), w')
         | (Responded r, w') \<Rightarrow> (Inr r, w')))"

text \<open>
  Modelled from the spec: \<open>createCakemailError\<close> (\<open>types/errors.ts\<close>, not among the
  sources). The spec, section 4.6: a non-2xx status maps to a structured API error carrying
  the status code and the parsed error body.
\<close>

definition createCakemailError :: "response \<Rightarrow> json \<Rightarrow> error" where
  "createCakemailError r errorBody = CakemailApiError (status r) errorBody"

text \<open>
  \<open>executeRequest\<close>. The \<open>catch\<close> block re-throws a \<open>CakemailNetworkError\<close> and wraps
  any other rejection, with its message, in one; \<open>withTimeout\<close> rejects with nothing but
  these two kinds.
\<close>

definition executeRequest ::
  "pipeline \<Rightarrow> client \<Rightarrow> string \<Rightarrow> endpoint \<Rightarrow> world \<Rightarrow> (error + json) \<times> world" where
  "executeRequest p c httpMethod ep w =
     (let tok = (if truthy (mockToken c) then mockToken c else token c) in
      if \<not> truthy tok then
        (Inl (CakemailAuthenticationError NoAuthenticationToken None), w)
      else
        (case withTimeout (timeout p) (ApiRequest httpMethod ep (getProp ''access_token'' tok)) w of
           (Inl (CakemailNetworkError m), w') \<Rightarrow> (Inl (CakemailNetworkError m), w')
         | (Inl (JsError m), w') \<Rightarrow> (Inl (CakemailNetworkError (''Network error: '' @ m)), w')
         | (Inl e, w') \<Rightarrow> (Inl (CakemailNetworkError ''Network error''), w')
         | (Inr r, w') \<Rightarrow>
             if \<not> ok r then (Inl (createCakemailError r (parseErrorResponse r)), w')
             else if contentType r \<noteq> None
                     \<and> str_includes (the (contentType r)) ''application/json''
             then (response_json r, w')
             else (Inr (JObj [(''success'', JBool True), (''status'', JNum (int (status r)))]), w')))"

text \<open>
  Modelled from the spec: \<open>RateLimiter.acquire\<close> (\<open>types/retry.ts\<close>, not among the
  sources). The spec, section 4.2: the caller is suspended until one unit of budget is
  available. The model records the acquisition; how long it suspends is left open, no
  decision of the executor depends on it.
\<close>

definition rateLimiter_acquire :: "world \<Rightarrow> world" where
  "rateLimiter_acquire w = emit (Enter RateLimiterAcquire) w"

text \<open>The closure \<open>operation\<close> of \<open>makeRequest\<close>.\<close>

definition operation ::
  "pipeline \<Rightarrow> client \<Rightarrow> string \<Rightarrow> endpoint \<Rightarrow> world \<Rightarrow> (error + json) \<times> world" where
  "operation p c httpMethod ep w =
     executeRequest p c httpMethod ep (if rateLimiter p then rateLimiter_acquire w else w)"

text \<open>
  Modelled from the spec: \<open>RetryManager.executeWithRetry\<close> (\<open>types/retry.ts\<close>, not among
  the sources). The spec, section 4.3: network errors, server errors in the 5xx range and
  rate-limit responses (429) are retryable; 4xx client errors other than 429 and
  authentication failures are not and propagate on first occurrence. The operation runs up
  to \<open>max_attempts\<close> times; the delay before attempt \<open>n\<close> (\<open>n \<ge> 2\<close>) is
  \<open>min (base_delay * 2 ^ (n - 2)) max_delay\<close> perturbed by jitter; on exhausting all
  attempts the last error is surfaced. The number of attempts made is the number of the last
  \<open>RetryAttempt\<close> in the trace.
\<close>

fun isRetryable :: "error \<Rightarrow> bool" where
  "isRetryable (CakemailNetworkError m) = True"
| "isRetryable (CakemailApiError s b) = ((500 \<le> s \<and> s \<le> 599) \<or> s = 429)"
| "isRetryable e = False"

text \<open>
  Modelled from the spec: the backoff of the retry manager (\<open>types/retry.ts\<close>, not among
  the sources). The delay before attempt \<open>n\<close> is \<open>min (base_delay * 2 ^ (n - 2)) max_delay\<close>
  plus the jitter drawn for that attempt.
\<close>

definition backoffDelay :: "retry_policy \<Rightarrow> nat \<Rightarrow> int" where
  "backoffDelay pol n = int (min (baseDelay pol * 2 ^ (n - 2)) (maxDelay pol)) + jitter pol n"

text \<open>
  Modelled from the spec: the attempts of \<open>executeWithRetry\<close> (\<open>types/retry.ts\<close>, not among
  the sources), from attempt \<open>n\<close> on: a success or a failure that is not retryable ends
  the loop, a retryable failure ends it when \<open>n\<close> has reached \<open>max_attempts\<close> and is
  otherwise followed by the backoff delay and attempt \<open>n + 1\<close>.
\<close>

function retry_loop ::
  "retry_policy \<Rightarrow> (world \<Rightarrow> (error + 'a) \<times> world) \<Rightarrow> nat \<Rightarrow> world \<Rightarrow> (error + 'a) \<times> world" where
  "retry_loop pol op n w =
     (case op (emit (Enter (RetryAttempt n)) w) of
        (Inr v, w') \<Rightarrow> (Inr v, w')
      | (Inl e, w') \<Rightarrow>
          if \<not> isRetryable e then (Inl e, w')
          else if n \<ge> maxAttempts pol then (Inl e, w')
          else retry_loop pol op (n + 1) (sleep (backoffDelay pol (n + 1)) w'))"
  by pat_completeness auto
termination
  by (relation "measure (\<lambda>(pol, op, n, w). maxAttempts pol - n)") auto

declare retry_loop.simps [simp del]

text \<open>
  Modelled from the spec: \<open>executeWithRetry\<close> itself (\<open>types/retry.ts\<close>, not among the
  sources) starts the attempts at number 1.
\<close>

definition executeWithRetry ::
  "retry_policy \<Rightarrow> (world \<Rightarrow> (error + 'a) \<times> world) \<Rightarrow> world \<Rightarrow> (error + 'a) \<times> world" where
  "executeWithRetry pol op w = retry_loop pol op 1 w"

text \<open>
  Modelled from the spec: \<open>CircuitBreaker.execute\<close> (\<open>types/retry.ts\<close>, not among the
  sources). The spec, section 4.4: closed, operations pass, a failure increments the count of
  consecutive failures and opens the breaker at the threshold, a success resets the count;
  open, operations fail at once until \<open>reset_timeout\<close> has elapsed, then the next call is
  the half-open trial; the trial closes the breaker on success and re-opens it on failure.
\<close>

definition afterOutcome :: "breaker \<Rightarrow> bool \<Rightarrow> int \<Rightarrow> breaker" where
  "afterOutcome b succeeded now =
     (if succeeded then b\<lparr>circuitState := Closed, consecutiveFailures := 0\<rparr>
      else if circuitState b = HalfOpen then b\<lparr>circuitState := Open, openedAt := now\<rparr>
      else if consecutiveFailures b + 1 \<ge> failureThreshold b
      then b\<lparr>circuitState := Open, consecutiveFailures := consecutiveFailures b + 1,
             openedAt := now\<rparr>
      else b\<lparr>consecutiveFailures := consecutiveFailures b + 1\<rparr>)"

text \<open>
  Modelled from the spec: \<open>CircuitBreaker.execute\<close> (\<open>types/retry.ts\<close>, not among the
  sources), section 4.4: the gate, then the operation and the transition that its outcome
  causes.
\<close>

definition circuitBreaker_execute ::
  "breaker \<Rightarrow> (world \<Rightarrow> (error + 'a) \<times> world) \<Rightarrow> world \<Rightarrow> (error + 'a) \<times> breaker \<times> world" where
  "circuitBreaker_execute b0 op w0 =
     (let w = emit (Enter CircuitBreakerGate) w0 in
      if circuitState b0 = Open \<and> clock w - openedAt b0 < resetTimeout b0
      then (Inl CircuitOpenError, b0, w)
      else
        (let b = (if circuitState b0 = Open then b0\<lparr>circuitState := HalfOpen\<rparr> else b0) in
         case op w of
           (Inr v, w') \<Rightarrow> (Inr v, afterOutcome b True (clock w'), w')
         | (Inl e, w') \<Rightarrow> (Inl e, afterOutcome b False (clock w'), w')))"

text \<open>
  Modelled from the spec: \<open>RequestQueue.add\<close> (\<open>types/retry.ts\<close>, not among the sources).
  The spec, section 4.5: the operation runs as soon as a slot is free and the slot is
  released when it completes. With one caller at a time a slot is always free.
\<close>

definition requestQueue_add :: "(world \<Rightarrow> 'r) \<Rightarrow> world \<Rightarrow> 'r" where
  "requestQueue_add op w = op (emit (Enter QueueAdmission) w)"

type_synonym 'a outcome = "(error + 'a) \<times> pipeline \<times> client \<times> world"

definition makeRequest ::
  "pipeline \<Rightarrow> client \<Rightarrow> string \<Rightarrow> endpoint \<Rightarrow> world \<Rightarrow> json outcome" where
  "makeRequest p c httpMethod ep w =
     (case ensureValidToken c w of
        (Inl e, c', w') \<Rightarrow> (Inl e, p, c', w')
      | (Inr u, c', w') \<Rightarrow>
          requestQueue_add
            (\<lambda>v. case circuitBreaker p of
                    Some b \<Rightarrow>
                      (case circuitBreaker_execute b
                              (executeWithRetry (retryPolicy p) (operation p c' httpMethod ep)) v of
                         (res, b', v') \<Rightarrow> (res, p\<lparr>circuitBreaker := Some b'\<rparr>, c', v'))
                  | None \<Rightarrow>
                      (case executeWithRetry (retryPolicy p) (operation p c' httpMethod ep) v of
                         (res, v') \<Rightarrow> (res, p, c', v')))
            w')"

definition plainPipeline :: pipeline where
  "plainPipeline = \<lparr>timeout = 30000, rateLimiter = True,
      circuitBreaker = Some \<lparr>failureThreshold = 5, resetTimeout = 60000, circuitState = Closed,
                              consecutiveFailures = 0, openedAt = 0\<rparr>,
      retryPolicy = \<lparr>maxAttempts = 3, baseDelay = 1000, maxDelay = 30000, jitter = (\<lambda>n. 0)\<rparr>\<rparr>"


definition signedInClient :: client where
  "signedInClient = \<lparr>token = Some sampleToken, mockToken = None,
                      tokenExpiry = Some (Date 3541005), currentAccountId = None\<rparr>"

fun isRetryAttempt :: "event \<Rightarrow> bool" where
  "isRetryAttempt (Enter (RetryAttempt n)) = True"
| "isRetryAttempt e = False"

definition attemptsMade :: "world \<Rightarrow> nat" where
  "attemptsMade w = length (filter isRetryAttempt (trace w))"

definition campaign7 :: endpoint where
  "campaign7 = (''/campaigns/7'', [])"

definition jsonReply :: "json \<Rightarrow> reply" where
  "jsonReply j = Responded \<lparr>status = 200, statusText = ''OK'',
      contentType = Some ''application/json'', bodyText = Some ''{...}'', bodyJson = Some j\<rparr>"

definition recovering :: world where
  "recovering = worldOf (\<lambda>n. if n < 2 then errorReply 503 else jsonReply (JObj [(''data'', JArr [])]))"

section \<open>The order of the stages\<close>

text \<open>
  The order in which one call passes through the stages is read off its events by an
  automaton: a phase, and for each event the phase it leads to, or \<open>None\<close> when the event
  is out of order. \<open>observedOrder\<close> is the order of \<open>makeRequest\<close>; \<open>specifiedOrder\<close> is
  the order that section 4.6 of the spec words. Both skip the rate limiter and the circuit
  breaker when the component is absent.
\<close>

datatype phase =
    Start
  | Credential
  | Queued
  | Gated
  | Attempting nat
  | Limited nat
  | Validating nat
  | Called nat
  | BackingOff nat

definition observedOrder :: "bool \<Rightarrow> bool \<Rightarrow> phase \<Rightarrow> event \<Rightarrow> phase option" where
  "observedOrder lim brk ph e =
     (case ph of
        Start \<Rightarrow> (case e of Enter EnsureValidToken \<Rightarrow> Some Credential | _ \<Rightarrow> None)
      | Credential \<Rightarrow>
          (case e of
             Fetch (TokenRequest g) \<Rightarrow> Some Credential
           | Sleep d \<Rightarrow> Some Credential
           | Enter QueueAdmission \<Rightarrow> Some Queued
           | _ \<Rightarrow> None)
      | Queued \<Rightarrow>
          (case e of
             Enter CircuitBreakerGate \<Rightarrow> if brk then Some Gated else None
           | Enter (RetryAttempt n) \<Rightarrow> if \<not> brk \<and> n = 1 then Some (Attempting 1) else None
           | _ \<Rightarrow> None)
      | Gated \<Rightarrow>
          (case e of
             Enter (RetryAttempt n) \<Rightarrow> if n = 1 then Some (Attempting 1) else None
           | _ \<Rightarrow> None)
      | Attempting n \<Rightarrow>
          (case e of
             Enter RateLimiterAcquire \<Rightarrow> if lim then Some (Limited n) else None
           | Fetch (ApiRequest m ep t) \<Rightarrow> if \<not> lim then Some (Called n) else None
           | _ \<Rightarrow> None)
      | Limited n \<Rightarrow> (case e of Fetch (ApiRequest m ep t) \<Rightarrow> Some (Called n) | _ \<Rightarrow> None)
      | Validating n \<Rightarrow> None
      | Called n \<Rightarrow> (case e of Sleep d \<Rightarrow> Some (BackingOff n) | _ \<Rightarrow> None)
      | BackingOff n \<Rightarrow>
          (case e of
             Enter (RetryAttempt k) \<Rightarrow> if k = n + 1 then Some (Attempting k) else None
           | _ \<Rightarrow> None))"

definition specifiedOrder :: "bool \<Rightarrow> bool \<Rightarrow> phase \<Rightarrow> event \<Rightarrow> phase option" where
  "specifiedOrder lim brk ph e =
     (case ph of
        Start \<Rightarrow> (case e of Enter QueueAdmission \<Rightarrow> Some Queued | _ \<Rightarrow> None)
      | Credential \<Rightarrow> None
      | Queued \<Rightarrow>
          (case e of
             Enter CircuitBreakerGate \<Rightarrow> if brk then Some Gated else None
           | Enter (RetryAttempt n) \<Rightarrow> if \<not> brk \<and> n = 1 then Some (Attempting 1) else None
           | _ \<Rightarrow> None)
      | Gated \<Rightarrow>
          (case e of
             Enter (RetryAttempt n) \<Rightarrow> if n = 1 then Some (Attempting 1) else None
           | _ \<Rightarrow> None)
      | Attempting n \<Rightarrow>
          (case e of
             Enter RateLimiterAcquire \<Rightarrow> if lim then Some (Limited n) else None
           | Enter EnsureValidToken \<Rightarrow> if \<not> lim then Some (Validating n) else None
           | _ \<Rightarrow> None)
      | Limited n \<Rightarrow> (case e of Enter EnsureValidToken \<Rightarrow> Some (Validating n) | _ \<Rightarrow> None)
      | Validating n \<Rightarrow>
          (case e of
             Fetch (TokenRequest g) \<Rightarrow> Some (Validating n)
           | Fetch (ApiRequest m ep t) \<Rightarrow> Some (Called n)
           | Sleep d \<Rightarrow> Some (Validating n)
           | _ \<Rightarrow> None)
      | Called n \<Rightarrow> (case e of Sleep d \<Rightarrow> Some (BackingOff n) | _ \<Rightarrow> None)
      | BackingOff n \<Rightarrow>
          (case e of
             Enter (RetryAttempt k) \<Rightarrow> if k = n + 1 then Some (Attempting k) else None
           | _ \<Rightarrow> None))"

fun runOrder :: "(phase \<Rightarrow> event \<Rightarrow> phase option) \<Rightarrow> phase \<Rightarrow> event list \<Rightarrow> phase option" where
  "runOrder step ph [] = Some ph"
| "runOrder step ph (e # es) =
     (case step ph e of None \<Rightarrow> None | Some ph' \<Rightarrow> runOrder step ph' es)"

definition stagesOf :: "pipeline \<Rightarrow> phase \<Rightarrow> event \<Rightarrow> phase option" where
  "stagesOf p = observedOrder (rateLimiter p) (circuitBreaker p \<noteq> None)"

definition isCredentialEvent :: "event \<Rightarrow> bool" where
  "isCredentialEvent e =
     (case e of Fetch (TokenRequest g) \<Rightarrow> True | Sleep d \<Rightarrow> True | _ \<Rightarrow> False)"

definition unavailableOnce :: world where
  "unavailableOnce =
     worldOf (\<lambda>n. if n = 0 then errorReply 503 else jsonReply (JObj [(''data'', JArr [])]))"

definition retriedCall :: "json outcome" where
  "retriedCall = makeRequest plainPipeline signedInClient ''GET'' campaign7 unavailableOnce"

section \<open>Campaign operations\<close>

text \<open>
  \<open>getCurrentAccountId\<close>: the cached identifier, or the \<open>id\<close> that \<open>/accounts/self\<close>
  returns; every failure of the lookup, also reading \<open>data\<close> of a \<open>null\<close> body, is caught
  and gives \<open>undefined\<close>.
\<close>

definition getCurrentAccountId ::
  "pipeline \<Rightarrow> client \<Rightarrow> world \<Rightarrow> json option \<times> pipeline \<times> client \<times> world" where
  "getCurrentAccountId p c w =
     (if truthy (currentAccountId c) then (currentAccountId c, p, c, w)
      else
        (case makeRequest p c ''GET'' (''/accounts/self'', []) w of
           (Inl e, p', c', w') \<Rightarrow> (None, p', c', w')
         | (Inr account, p', c', w') \<Rightarrow>
             (case account of
                JNull \<Rightarrow> (None, p', c', w')
              | _ \<Rightarrow>
                  (let cid = or_else (getProp ''id'' (getProp ''data'' (Some account))) None
                   in (or_else cid None, p', c'\<lparr>currentAccountId := cid\<rparr>, w')))))"

text \<open>
  The parameters of \<open>getCampaigns\<close> (\<open>GetCampaignsParams & { account_id?: number }\<close>), each
  optional; a missing \<open>params\<close> object is the record with every field absent.
\<close>

record GetCampaignsParams =
  p_sort :: "string option"
  p_order :: "string option"
  p_status :: "string option"
  p_name :: "string option"
  p_type :: "string option"
  p_list_id :: "string option"
  p_page :: "int option"
  p_per_page :: "int option"
  p_with_count :: "bool option"
  p_account_id :: "int option"

definition truthyStr :: "string option \<Rightarrow> bool" where
  "truthyStr s = (s \<noteq> None \<and> s \<noteq> Some [])"

definition truthyNum :: "int option \<Rightarrow> bool" where
  "truthyNum n = (n \<noteq> None \<and> n \<noteq> Some 0)"

fun join :: "string \<Rightarrow> string list \<Rightarrow> string" where
  "join sep [] = []"
| "join sep [x] = x"
| "join sep (x # y # ys) = x @ sep @ join sep (y # ys)"

definition validSortTerms :: "string list" where
  "validSortTerms = [''name'', ''created_on'', ''scheduled_for'', ''scheduled_on'',
                     ''updated_on'', ''type'']"

definition campaignFilters :: "GetCampaignsParams \<Rightarrow> string list" where
  "campaignFilters params =
     (if truthyStr (p_status params) then [''status=='' @ the (p_status params)] else [])
     @ (if truthyStr (p_name params) then [''name=='' @ the (p_name params)] else [])
     @ (if truthyStr (p_type params) then [''type=='' @ the (p_type params)] else [])
     @ (if truthyStr (p_list_id params) then [''list_id=='' @ the (p_list_id params)] else [])"

text \<open>Steps 1 to 3 of \<open>getCampaigns\<close>: the entries of \<open>apiParams\<close> in insertion order.\<close>

definition campaignApiParams :: "GetCampaignsParams \<Rightarrow> (string \<times> json) list" where
  "campaignApiParams params =
     [(''sort'',
       JStr (if truthyStr (p_sort params)
             then (if p_order params = Some ''desc'' then ''-'' else ''+'') @ the (p_sort params)
             else ''-created_on''))]
     @ (if campaignFilters params \<noteq> []
        then [(''filter'', JStr (join '';'' (campaignFilters params)))] else [])
     @ (if truthyNum (p_page params) then [(''page'', JNum (the (p_page params)))] else [])
     @ (if truthyNum (p_per_page params)
        then [(''per_page'', JNum (the (p_per_page params)))] else [])
     @ (if p_with_count params = Some True then [(''with_count'', JBool True)] else [])"

definition getCampaigns ::
  "pipeline \<Rightarrow> client \<Rightarrow> GetCampaignsParams \<Rightarrow> world \<Rightarrow> json outcome" where
  "getCampaigns p c params w =
     (case (if truthyNum (p_account_id params)
            then (Some (JNum (the (p_account_id params))), p, c, w)
            else getCurrentAccountId p c w) of
        (accountId, p1, c1, w1) \<Rightarrow>
          (let apiParams = campaignApiParams params
                 @ (if truthy accountId then [(''account_id'', the accountId)] else [])
           in
           if truthyStr (p_sort params) \<and> the (p_sort params) \<notin> set validSortTerms then
             (Inl (JsError (''Invalid sort term '' @ [CHR 0x27] @ the (p_sort params) @ [CHR 0x27]
                            @ ''. Valid terms: '' @ join '', '' validSortTerms)), p1, c1, w1)
           else if truthyNum (p_per_page params) \<and> the (p_per_page params) > 50 then
             (Inl (JsError ''per_page cannot exceed 50 (API limit)''), p1, c1, w1)
           else makeRequest p1 c1 ''GET'' (''/campaigns'', apiParams) w1))"

text \<open>\<open>PaginationParams\<close>, the parameters of \<open>getCampaignRevisions\<close>.\<close>

record PaginationParams =
  q_page :: "int option"
  q_per_page :: "int option"
  q_with_count :: "bool option"

definition getCampaignRevisions ::
  "pipeline \<Rightarrow> client \<Rightarrow> string \<Rightarrow> PaginationParams \<Rightarrow> world \<Rightarrow> json outcome" where
  "getCampaignRevisions p c campaignId params w =
     (case getCurrentAccountId p c w of
        (accountId, p1, c1, w1) \<Rightarrow>
          (let apiParams =
                 [(''page'', JNum (if truthyNum (q_page params) then the (q_page params) else 1)),
                  (''per_page'',
                   JNum (if truthyNum (q_per_page params) then the (q_per_page params) else 50)),
                  (''with_count'', JBool (q_with_count params \<noteq> Some False))]
                 @ (if truthy accountId then [(''account_id'', the accountId)] else [])
           in makeRequest p1 c1 ''GET''
                (''/campaigns/'' @ campaignId @ ''/revisions'', apiParams) w1))"

definition noParams :: GetCampaignsParams where
  "noParams = \<lparr>p_sort = None, p_order = None, p_status = None, p_name = None, p_type = None,
               p_list_id = None, p_page = None, p_per_page = None, p_with_count = None,
               p_account_id = None\<rparr>"

definition healthy :: world where
  "healthy = worldOf (\<lambda>n. jsonReply (JObj [(''data'', JArr [])]))"

definition oversizedPage :: GetCampaignsParams where
  "oversizedPage = noParams\<lparr>p_per_page := Some 51, p_account_id := Some 7\<rparr>"

definition fullPage :: GetCampaignsParams where
  "fullPage = noParams\<lparr>p_per_page := Some 50, p_account_id := Some 7\<rparr>"

definition revisionsPage :: "int \<Rightarrow> PaginationParams" where
  "revisionsPage n = \<lparr>q_page = None, q_per_page = Some n, q_with_count = None\<rparr>"

definition knownAccount :: client where
  "knownAccount = signedInClient\<lparr>currentAccountId := Some (JNum 7)\<rparr>"

section \<open>Pagination\<close>

text \<open>
  Modelled from the spec: the pagination iterator (\<open>utils/pagination\<close>, not among the
  sources), offset strategy. The spec, section 4.7: given a page-fetch function, \<open>toArray\<close>
  exhausts the iterator, concatenating the items in arrival order; the offset strategy
  advances \<open>page += 1\<close> each call and terminates when a fetched page's item count is less
  than the requested \<open>per_page\<close>; a failed page fetch is surfaced. Pages are numbered from 1.
  The loop need not end (a backend may return full pages for ever), so not returning is the
  value \<open>None\<close>.
\<close>

partial_function (option) toArray_loop ::
  "(nat \<Rightarrow> 's \<Rightarrow> ('e + 'a list) \<times> 's) \<Rightarrow> nat \<Rightarrow> nat \<Rightarrow> 'a list \<Rightarrow> 's \<Rightarrow> (('e + 'a list) \<times> 's) option" where
  "toArray_loop fetchPage per_page page acc s =
     (case fetchPage page s of
        (Inl e, s') \<Rightarrow> Some (Inl e, s')
      | (Inr items, s') \<Rightarrow>
          if length items < per_page then Some (Inr (acc @ items), s')
          else toArray_loop fetchPage per_page (page + 1) (acc @ items) s')"

text \<open>
  Modelled from the spec: \<open>toArray\<close> of the pagination iterator (\<open>utils/pagination\<close>, not
  among the sources) starts at page 1 with no items.
\<close>

definition toArray ::
  "(nat \<Rightarrow> 's \<Rightarrow> ('e + 'a list) \<times> 's) \<Rightarrow> nat \<Rightarrow> 's \<Rightarrow> (('e + 'a list) \<times> 's) option" where
  "toArray fetchPage per_page s = toArray_loop fetchPage per_page 1 [] s"

text \<open>
  A mock offset-paged resource: page \<open>p\<close> of \<open>per_page\<close> items is the \<open>p\<close>-th slice of
  the item list. Its state is the log of the fetches served: page number and page size.
\<close>

definition mockResource ::
  "'a list \<Rightarrow> nat \<Rightarrow> nat \<Rightarrow> (nat \<times> nat) list \<Rightarrow> (error + 'a list) \<times> (nat \<times> nat) list" where
  "mockResource xs per_page page served =
     (let items = take per_page (drop ((page - 1) * per_page) xs)
      in (Inr items, served @ [(page, length items)]))"

text \<open>The fetches that exhausting \<open>n\<close> remaining items takes, starting at \<open>page\<close>.\<close>

fun expectedFetches :: "nat \<Rightarrow> nat \<Rightarrow> nat \<Rightarrow> (nat \<times> nat) list" where
  "expectedFetches per_page page n =
     (if per_page = 0 \<or> n < per_page then [(page, n)]
      else (page, per_page) # expectedFetches per_page (page + 1) (n - per_page))"

declare expectedFetches.simps [simp del]

section \<open>Concurrent callers\<close>

text \<open>
  A call of an async function runs without interruption up to its first \<open>await\<close>. The
  methods \<open>ensureValidToken\<close>, \<open>authenticate\<close>, \<open>passwordAuthenticate\<close> and \<open>refreshToken\<close>
  write \<open>token\<close> and \<open>tokenExpiry\<close> only after the \<open>await\<close> of their \<open>fetch\<close>, and the
  client keeps no record of a request that is under way. So a caller that enters
  \<open>ensureValidToken\<close> at time \<open>now\<close> reads the shared fields, sends the token request that
  \<open>firstTokenRequest\<close> gives, if any, and suspends; the fields are as it found them.
\<close>

definition firstTokenRequest :: "client \<Rightarrow> int \<Rightarrow> grant option" where
  "firstTokenRequest c now =
     (if truthy (mockToken c) then None
      else
        (let st = getTokenStatus c now in
         if \<not> hasToken st \<or> isExpired st then
           (if truthy (getProp ''refresh_token'' (token c)) \<and> tokenExpiry c \<noteq> None
               \<and> date_lt now (date_minus (the (tokenExpiry c)) 300000)
            then Some (RefreshGrant (the (getProp ''refresh_token'' (token c))))
            else Some PasswordGrant)
         else if needsRefresh st \<and> hasRefreshToken st
         then Some (RefreshGrant (the (getProp ''refresh_token'' (token c))))
         else None))"

record session =
  shared :: client
  inFlight :: "grant list"

text \<open>
  \<open>shared\<close> is the one client object that all callers use; \<open>inFlight\<close> lists the token
  requests sent and not yet answered. \<open>enter now s\<close> is a caller entering
  \<open>ensureValidToken\<close> at time \<open>now\<close> and running to its first suspension; \<open>enterAll\<close> is
  several callers doing so one after the other, before any answer arrives.
\<close>

definition enter :: "int \<Rightarrow> session \<Rightarrow> session" where
  "enter now s =
     (case firstTokenRequest (shared s) now of
        None \<Rightarrow> s
      | Some g \<Rightarrow> s\<lparr>inFlight := inFlight s @ [g]\<rparr>)"

fun enterAll :: "int list \<Rightarrow> session \<Rightarrow> session" where
  "enterAll [] s = s"
| "enterAll (t # ts) s = enterAll ts (enter t s)"

definition idle :: "client \<Rightarrow> session" where
  "idle c = \<lparr>shared = c, inFlight = []\<rparr>"

section \<open>Credential lifecycle: properties\<close>

lemma passwordAuthenticate_cases:
  assumes "passwordAuthenticate c w = (res, c', w')"
  shows "(res = Inr () \<longrightarrow> (\<exists>td. token c' = Some td \<and> tokenExpiry c' = Some (storedExpiry (clock w') td)))
       \<and> (\<forall>e. res = Inl e \<longrightarrow> c' = c)"
  using assms unfolding passwordAuthenticate_def
  by (auto simp: Let_def split: prod.splits reply.splits if_splits sum.splits)

lemma refreshToken_cases:
  assumes "refreshToken c w = (res, c', w')"
  shows "(res = Inr () \<longrightarrow> (\<exists>td. token c' = Some td \<and> tokenExpiry c' = Some (storedExpiry (clock w') td)))
       \<and> (\<forall>e. res = Inl e \<longrightarrow> c' = c \<or> c' = c\<lparr>token := None, tokenExpiry := None\<rparr>)"
  using assms unfolding refreshToken_def
  by (auto simp: Let_def split: prod.splits reply.splits if_splits sum.splits)





lemma authenticate_unroll:
  "authenticate c w =
     (case authenticate_attempt c w of
        (Inr u, c1, w1) \<Rightarrow> (Inr u, c1, w1)
      | (Inl e1, c1, w1) \<Rightarrow>
          (case authenticate_attempt c1 (sleep 2000 w1) of
             (Inr u, c2, w2) \<Rightarrow> (Inr u, c2, w2)
           | (Inl e2, c2, w2) \<Rightarrow> authenticate_attempt c2 (sleep 4000 w2)))"
  by (simp add: authenticate_def maxRetries_def split: prod.splits sum.splits)

lemma passwordAuthenticate_trace:
  "passwordAuthenticate c w = (r, c', w') \<Longrightarrow>
     trace w' = trace w @ [Fetch (TokenRequest PasswordGrant)] \<and> clock w \<le> clock w'
     \<and> fetches w' = fetches w + 1"
  unfolding passwordAuthenticate_def
  by (auto simp: Let_def fetch_def split: prod.splits reply.splits if_splits sum.splits)

lemma refreshToken_trace:
  "refreshToken c w = (r, c', w') \<Longrightarrow>
     clock w \<le> clock w' \<and>
     (if truthy (getProp ''refresh_token'' (token c))
      then trace w' = trace w @ [Fetch (TokenRequest (RefreshGrant (the (getProp ''refresh_token'' (token c)))))]
         \<and> fetches w' = fetches w + 1
      else w' = w \<and> c' = c \<and> r = Inl (CakemailAuthenticationError NoRefreshTokenAvailable None))"
  unfolding refreshToken_def
  by (auto simp: Let_def fetch_def split: prod.splits reply.splits if_splits sum.splits)

lemma authenticate_attempt_bounds:
  assumes "authenticate_attempt c w = (r, c', w')"
  shows "passwordFetches w' \<le> passwordFetches w + 1 \<and> fetches w' \<le> fetches w + 2"
proof (cases "truthy (getProp ''refresh_token'' (token c)) \<and> tokenExpiry c \<noteq> None
         \<and> date_lt (clock w) (date_minus (the (tokenExpiry c)) 300000)")
  case False
  with assms have "passwordAuthenticate c w = (r, c', w')"
    unfolding authenticate_attempt_def by (auto split: if_splits)
  from passwordAuthenticate_trace [OF this] show ?thesis
    by (simp add: passwordFetches_def)
next
  case True
  obtain r1 c1 w1 where rf: "refreshToken c w = (r1, c1, w1)"
    by (cases "refreshToken c w") auto
  from refreshToken_trace [OF rf] True
  have t1: "passwordFetches w1 = passwordFetches w" "fetches w1 = fetches w + 1"
    by (simp_all add: passwordFetches_def)
  show ?thesis
  proof (cases r1)
    case (Inr u)
    with assms True rf have "w' = w1"
      unfolding authenticate_attempt_def by (auto split: if_splits)
    with t1 show ?thesis by simp
  next
    case (Inl e)
    with assms True rf have "passwordAuthenticate c1 w1 = (r, c', w')"
      unfolding authenticate_attempt_def by (auto split: if_splits)
    from passwordAuthenticate_trace [OF this] t1 show ?thesis
      by (simp add: passwordFetches_def)
  qed
qed

lemma sleep_counts:
  "passwordFetches (sleep ms w) = passwordFetches w" "fetches (sleep ms w) = fetches w"
  by (simp_all add: sleep_def passwordFetches_def)

lemma authenticate_bounds:
  assumes "authenticate c w = (r, c', w')"
  shows "passwordFetches w' \<le> passwordFetches w + 3 \<and> fetches w' \<le> fetches w + 6"
proof -
  obtain r1 c1 w1 where a1: "authenticate_attempt c w = (r1, c1, w1)"
    by (cases "authenticate_attempt c w") auto
  obtain r2 c2 w2 where a2: "authenticate_attempt c1 (sleep 2000 w1) = (r2, c2, w2)"
    by (cases "authenticate_attempt c1 (sleep 2000 w1)") auto
  obtain r3 c3 w3 where a3: "authenticate_attempt c2 (sleep 4000 w2) = (r3, c3, w3)"
    by (cases "authenticate_attempt c2 (sleep 4000 w2)") auto
  note b1 = authenticate_attempt_bounds [OF a1]
  note b2 = authenticate_attempt_bounds [OF a2, unfolded sleep_counts]
  note b3 = authenticate_attempt_bounds [OF a3, unfolded sleep_counts]
  have "w' = w1 \<or> w' = w2 \<or> w' = w3"
    using assms a1 a2 a3 by (auto simp: authenticate_unroll split: sum.splits)
  with b1 b2 b3 show ?thesis by auto
qed

lemma backoff_delays: "2 ^ 1 * 1000 = (2000::int)" "2 ^ 2 * 1000 = (4000::int)"
  by simp_all

lemma authenticate_attempt_events:
  assumes "authenticate_attempt c w = (r, c', w')"
  shows "\<exists>evs. trace w' = trace w @
            (if truthy (getProp ''refresh_token'' (token c)) \<and> tokenExpiry c \<noteq> None
                \<and> date_lt (clock w) (date_minus (the (tokenExpiry c)) 300000)
             then Fetch (TokenRequest (RefreshGrant (the (getProp ''refresh_token'' (token c)))))
             else Fetch (TokenRequest PasswordGrant)) # evs"
    and "\<And>e. r = Inl e \<Longrightarrow> last (trace w') = Fetch (TokenRequest PasswordGrant)"
    and "clock w \<le> clock w'"
proof -
  let ?cond = "truthy (getProp ''refresh_token'' (token c)) \<and> tokenExpiry c \<noteq> None
                \<and> date_lt (clock w) (date_minus (the (tokenExpiry c)) 300000)"
  have all: "(\<exists>evs. trace w' = trace w @
            (if ?cond
             then Fetch (TokenRequest (RefreshGrant (the (getProp ''refresh_token'' (token c)))))
             else Fetch (TokenRequest PasswordGrant)) # evs)
      \<and> (\<forall>e. r = Inl e \<longrightarrow> last (trace w') = Fetch (TokenRequest PasswordGrant))
      \<and> clock w \<le> clock w'"
  proof (cases ?cond)
    case False
    with assms have "passwordAuthenticate c w = (r, c', w')"
      unfolding authenticate_attempt_def by (auto split: if_splits)
    from passwordAuthenticate_trace [OF this] False show ?thesis by auto
  next
    case True
    obtain r1 c1 w1 where rf: "refreshToken c w = (r1, c1, w1)"
      by (cases "refreshToken c w") auto
    from refreshToken_trace [OF rf] True
    have t1: "trace w1 = trace w @ [Fetch (TokenRequest (RefreshGrant (the (getProp ''refresh_token'' (token c)))))]"
      "clock w \<le> clock w1"
      by simp_all
    show ?thesis
    proof (cases r1)
      case (Inr u)
      with assms True rf have "w' = w1" "r = Inr u"
        unfolding authenticate_attempt_def by (auto split: if_splits)
      with t1 True show ?thesis by auto
    next
      case (Inl e)
      with assms True rf have "passwordAuthenticate c1 w1 = (r, c', w')"
        unfolding authenticate_attempt_def by (auto split: if_splits)
      from passwordAuthenticate_trace [OF this] t1 True show ?thesis by auto
    qed
  qed
  from all show "\<exists>evs. trace w' = trace w @
            (if ?cond
             then Fetch (TokenRequest (RefreshGrant (the (getProp ''refresh_token'' (token c)))))
             else Fetch (TokenRequest PasswordGrant)) # evs" by blast
  from all show "\<And>e. r = Inl e \<Longrightarrow> last (trace w') = Fetch (TokenRequest PasswordGrant)" by blast
  from all show "clock w \<le> clock w'" by blast
qed

lemma authenticate_attempt_extends:
  assumes "authenticate_attempt c w = (r, c', w')"
  shows "\<exists>evs. trace w' = trace w @ evs"
  using authenticate_attempt_events(1) [OF assms] by auto

lemma authenticate_events:
  assumes "authenticate c w = (r, c', w')"
  shows "\<exists>evs. trace w' = trace w @
            (if truthy (getProp ''refresh_token'' (token c)) \<and> tokenExpiry c \<noteq> None
                \<and> date_lt (clock w) (date_minus (the (tokenExpiry c)) 300000)
             then Fetch (TokenRequest (RefreshGrant (the (getProp ''refresh_token'' (token c)))))
             else Fetch (TokenRequest PasswordGrant)) # evs"
    and "\<And>e. r = Inl e \<Longrightarrow> last (trace w') = Fetch (TokenRequest PasswordGrant)"
proof -
  obtain r1 c1 w1 where a1: "authenticate_attempt c w = (r1, c1, w1)"
    by (cases "authenticate_attempt c w") auto
  obtain r2 c2 w2 where a2: "authenticate_attempt c1 (sleep 2000 w1) = (r2, c2, w2)"
    by (cases "authenticate_attempt c1 (sleep 2000 w1)") auto
  obtain r3 c3 w3 where a3: "authenticate_attempt c2 (sleep 4000 w2) = (r3, c3, w3)"
    by (cases "authenticate_attempt c2 (sleep 4000 w2)") auto
  let ?first = "(if truthy (getProp ''refresh_token'' (token c)) \<and> tokenExpiry c \<noteq> None
                \<and> date_lt (clock w) (date_minus (the (tokenExpiry c)) 300000)
             then Fetch (TokenRequest (RefreshGrant (the (getProp ''refresh_token'' (token c)))))
             else Fetch (TokenRequest PasswordGrant))"
  from authenticate_attempt_events(1) [OF a1] obtain e1 where
    e1: "trace w1 = trace w @ ?first # e1" by blast
  from authenticate_attempt_extends [OF a2] obtain e2 where
    e2: "trace w2 = trace w1 @ Sleep 2000 # e2" by (auto simp: sleep_def)
  from authenticate_attempt_extends [OF a3] obtain e3 where
    e3: "trace w3 = trace w2 @ Sleep 4000 # e3" by (auto simp: sleep_def)
  have which: "(r, w') = (r1, w1) \<or> (r, w') = (r2, w2) \<or> (r, w') = (r3, w3)"
    using assms a1 a2 a3 by (auto simp: authenticate_unroll split: sum.splits)
  from which e1 e2 e3 show "\<exists>evs. trace w' = trace w @ ?first # evs"
    by auto
  fix e assume "r = Inl e"
  with which authenticate_attempt_events(2) [OF a1] authenticate_attempt_events(2) [OF a2]
    authenticate_attempt_events(2) [OF a3]
  show "last (trace w') = Fetch (TokenRequest PasswordGrant)" by auto
qed

lemma refresh_branch_expiry:
  assumes "hasToken (getTokenStatus c now)" "\<not> isExpired (getTokenStatus c now)"
    "needsRefresh (getTokenStatus c now)"
  shows "\<exists>t. tokenExpiry c = Some (Date t) \<and> now < t \<and> t - 300000 \<le> now"
proof (cases "tokenExpiry c")
  case None
  with assms show ?thesis by (simp add: getTokenStatus_def Let_def)
next
  case (Some d)
  with assms show ?thesis by (cases d) (simp_all add: getTokenStatus_def Let_def)
qed

lemma refresh_first_expiry:
  assumes "tokenExpiry c \<noteq> None" "date_lt now (date_minus (the (tokenExpiry c)) 300000)"
  shows "\<exists>t. tokenExpiry c = Some (Date t) \<and> now < t"
proof -
  from assms(1) obtain d where d: "tokenExpiry c = Some d" by auto
  with assms(2) show ?thesis by (cases d) simp_all
qed

lemma no_second_refresh:
  assumes "tokenExpiry c = Some (Date t)" "t - 300000 \<le> now" "now \<le> clock w1"
    "c1 = c \<or> c1 = c\<lparr>token := None, tokenExpiry := None\<rparr>"
  shows "authenticate_attempt c1 w1 = passwordAuthenticate c1 w1"
  using assms unfolding authenticate_attempt_def by auto

lemma ensureValidToken_branches:
  "ensureValidToken c w =
     (if truthy (mockToken c) then (Inr (), c, emit (Enter EnsureValidToken) w)
      else if \<not> hasToken (getTokenStatus c (clock w)) \<or> isExpired (getTokenStatus c (clock w))
      then authenticate c (emit (Enter EnsureValidToken) w)
      else if needsRefresh (getTokenStatus c (clock w)) \<and> hasRefreshToken (getTokenStatus c (clock w))
      then (case refreshToken c (emit (Enter EnsureValidToken) w) of
              (Inr u, c', w') \<Rightarrow> (Inr u, c', w')
            | (Inl e, c', w') \<Rightarrow> authenticate c' w')
      else (Inr (), c, emit (Enter EnsureValidToken) w))"
  by (simp add: ensureValidToken_def Let_def emit_def)

lemma newEvents_append: "trace w' = trace w @ evs \<Longrightarrow> newEvents w w' = evs"
  by (simp add: newEvents_def)

lemmas run_defs = ensureValidToken_branches emit_def getTokenStatus_def refreshToken_def fetch_def
  ok_def parseErrorResponse_def authenticate_unroll authenticate_attempt_def
  passwordAuthenticate_def response_json_def sleep_def storedExpiry_def newEvents_def
  worldOf_def tokenReply_def errorReply_def sampleToken_def renewedToken_def

text \<open>
  C10. \<open>authenticate\<close> always returns, after one, two or three attempts: a failed
  attempt, whatever its error, is followed by a pause of \<open>2 ^ n * 1000\<close> ms (2000, then
  4000) and another attempt, and the outcome of the third attempt is returned as it is, its
  error unchanged. Hence at most three password grants, and at most six requests, are sent.
\<close>

theorem authenticate_at_most_three_attempts:
  "authenticate c w =
     (case authenticate_attempt c w of
        (Inr u, c1, w1) \<Rightarrow> (Inr u, c1, w1)
      | (Inl e1, c1, w1) \<Rightarrow>
          (case authenticate_attempt c1 (sleep (2 ^ 1 * 1000) w1) of
             (Inr u, c2, w2) \<Rightarrow> (Inr u, c2, w2)
           | (Inl e2, c2, w2) \<Rightarrow> authenticate_attempt c2 (sleep (2 ^ 2 * 1000) w2)))
   \<and> passwordFetches (snd (snd (authenticate c w))) \<le> passwordFetches w + 3
   \<and> fetches (snd (snd (authenticate c w))) \<le> fetches w + 6"
proof -
  obtain r c' w' where a: "authenticate c w = (r, c', w')"
    by (cases "authenticate c w") auto
  have "authenticate c w =
     (case authenticate_attempt c w of
        (Inr u, c1, w1) \<Rightarrow> (Inr u, c1, w1)
      | (Inl e1, c1, w1) \<Rightarrow>
          (case authenticate_attempt c1 (sleep (2 ^ 1 * 1000) w1) of
             (Inr u, c2, w2) \<Rightarrow> (Inr u, c2, w2)
           | (Inl e2, c2, w2) \<Rightarrow> authenticate_attempt c2 (sleep (2 ^ 2 * 1000) w2)))"
    unfolding backoff_delays by (rule authenticate_unroll)
  moreover from authenticate_bounds [OF a]
  have "passwordFetches (snd (snd (authenticate c w))) \<le> passwordFetches w + 3"
       "fetches (snd (snd (authenticate c w))) \<le> fetches w + 6"
    by (simp_all add: a)
  ultimately show ?thesis by blast
qed

theorem authenticate_at_most_three_attempts_witness:
  "fst (authenticate freshClient lockedOut)
     = Inl (CakemailAuthenticationError (AuthenticationFailed 401 (Some (JStr ''ERR'')))
             (Some (JObj [(''detail'', JStr ''no'')])))
   \<and> trace (snd (snd (authenticate freshClient lockedOut)))
       = [Fetch (TokenRequest PasswordGrant), Sleep 2000,
          Fetch (TokenRequest PasswordGrant), Sleep 4000,
          Fetch (TokenRequest PasswordGrant)]
   \<and> passwordFetches (snd (snd (authenticate freshClient lockedOut)))
       \<le> passwordFetches lockedOut + 3"
proof -
  note unrolled = authenticate_at_most_three_attempts
    [of freshClient lockedOut]
  have a: "fst (authenticate freshClient lockedOut)
     = Inl (CakemailAuthenticationError (AuthenticationFailed 401 (Some (JStr ''ERR'')))
             (Some (JObj [(''detail'', JStr ''no'')])))"
    by (subst unrolled [THEN conjunct1])
       (simp add: freshClient_def lockedOut_def or_else_def run_defs del: authenticate_unroll)
  have b: "trace (snd (snd (authenticate freshClient lockedOut)))
       = [Fetch (TokenRequest PasswordGrant), Sleep 2000,
          Fetch (TokenRequest PasswordGrant), Sleep 4000,
          Fetch (TokenRequest PasswordGrant)]"
    by (subst unrolled [THEN conjunct1])
       (simp add: freshClient_def lockedOut_def or_else_def run_defs del: authenticate_unroll)
  from a b unrolled show ?thesis by blast
qed

text \<open>
  C5. For every run of \<open>ensureValidToken\<close>: (1) when the status check chooses the refresh
  and the refresh fails, for whatever reason, the result is that of \<open>authenticate\<close> on the
  state the refresh left, and that call goes straight to the password grant (no second
  refresh); (2) an error that \<open>ensureValidToken\<close> returns was raised by a password grant,
  the last request sent, never by a refresh; (3) the run starts with a refresh request only
  if a refresh token is stored and the stored expiry is still in the future.
\<close>

theorem ensureValidToken_refresh_fallback:
  assumes run: "ensureValidToken c w = (r, c', w')"
  shows "(\<forall>e c1 w1.
            \<not> truthy (mockToken c)
          \<and> hasToken (getTokenStatus c (clock w)) \<and> \<not> isExpired (getTokenStatus c (clock w))
          \<and> needsRefresh (getTokenStatus c (clock w))
          \<and> hasRefreshToken (getTokenStatus c (clock w))
          \<and> refreshToken c (emit (Enter EnsureValidToken) w) = (Inl e, c1, w1)
          \<longrightarrow> authenticate c1 w1 = (r, c', w')
            \<and> authenticate_attempt c1 w1 = passwordAuthenticate c1 w1)
       \<and> (\<forall>e. r = Inl e \<longrightarrow> last (trace w') = Fetch (TokenRequest PasswordGrant))
       \<and> (\<forall>rt evs.
            newEvents w w' = Enter EnsureValidToken # Fetch (TokenRequest (RefreshGrant rt)) # evs
            \<longrightarrow> truthy (getProp ''refresh_token'' (token c))
              \<and> (\<exists>t. tokenExpiry c = Some (Date t) \<and> clock w < t))"
    (is "?A \<and> ?B \<and> ?C")
proof -
  let ?w0 = "emit (Enter EnsureValidToken) w"
  let ?st = "getTokenStatus c (clock w)"
  have w0: "trace ?w0 = trace w @ [Enter EnsureValidToken]" "clock ?w0 = clock w"
    by (simp_all add: emit_def)
  have hasRefresh: "hasRefreshToken ?st = truthy (getProp ''refresh_token'' (token c))"
    by (simp add: getTokenStatus_def Let_def)
  consider (mock) "truthy (mockToken c)"
    | (auth) "\<not> truthy (mockToken c)" "\<not> hasToken ?st \<or> isExpired ?st"
    | (refresh) "\<not> truthy (mockToken c)" "hasToken ?st" "\<not> isExpired ?st"
        "needsRefresh ?st" "hasRefreshToken ?st"
    | (valid) "\<not> truthy (mockToken c)" "hasToken ?st" "\<not> isExpired ?st"
        "\<not> (needsRefresh ?st \<and> hasRefreshToken ?st)"
    by blast
  then show ?thesis
  proof cases
    case mock
    with run have res: "r = Inr ()" "w' = ?w0" by (simp_all add: ensureValidToken_branches)
    from res w0 have "newEvents w w' = [Enter EnsureValidToken]" by (simp add: newEvents_def)
    with mock res show ?thesis by simp
  next
    case valid
    with run have res: "r = Inr ()" "w' = ?w0" by (auto simp: ensureValidToken_branches)
    from res w0 have "newEvents w w' = [Enter EnsureValidToken]" by (simp add: newEvents_def)
    with valid res show ?thesis by auto
  next
    case auth
    with run have a: "authenticate c ?w0 = (r, c', w')" by (auto simp: ensureValidToken_branches)
    have A: ?A using auth by blast
    have B: ?B using authenticate_events(2) [OF a] by blast
    have C: ?C
    proof (intro allI impI)
      fix rt evs
      assume ne: "newEvents w w' = Enter EnsureValidToken # Fetch (TokenRequest (RefreshGrant rt)) # evs"
      let ?cond = "truthy (getProp ''refresh_token'' (token c)) \<and> tokenExpiry c \<noteq> None
                \<and> date_lt (clock w) (date_minus (the (tokenExpiry c)) 300000)"
      from authenticate_events(1) [OF a] obtain es where
        "trace w' = trace w @ Enter EnsureValidToken #
            (if ?cond
             then Fetch (TokenRequest (RefreshGrant (the (getProp ''refresh_token'' (token c)))))
             else Fetch (TokenRequest PasswordGrant)) # es"
        by (auto simp: w0)
      from newEvents_append [OF this] ne have ?cond by (auto split: if_splits)
      then show "truthy (getProp ''refresh_token'' (token c))
              \<and> (\<exists>t. tokenExpiry c = Some (Date t) \<and> clock w < t)"
        using refresh_first_expiry [of c "clock w"] by blast
    qed
    from A B C show ?thesis by blast
  next
    case refresh
    obtain r1 c1 w1 where rf: "refreshToken c ?w0 = (r1, c1, w1)"
      by (cases "refreshToken c ?w0") auto
    from refresh_branch_expiry [OF refresh(2,3,4)] obtain t where
      t: "tokenExpiry c = Some (Date t)" "clock w < t" "t - 300000 \<le> clock w" by blast
    have C: ?C using t refresh(5) hasRefresh by blast
    from refreshToken_trace [OF rf] w0 have clk: "clock w \<le> clock w1" by simp
    show ?thesis
    proof (cases r1)
      case (Inr u)
      with run refresh rf have res: "r = Inr u" by (auto simp: ensureValidToken_branches)
      have A: ?A using rf Inr by auto
      have B: ?B using res by simp
      from A B C show ?thesis by blast
    next
      case (Inl e1)
      with run refresh rf have a: "authenticate c1 w1 = (r, c', w')"
        by (auto simp: ensureValidToken_branches)
      from refreshToken_cases [OF rf] Inl
      have c1: "c1 = c \<or> c1 = c\<lparr>token := None, tokenExpiry := None\<rparr>" by simp
      have A: ?A using rf Inl a no_second_refresh [OF t(1) t(3) clk c1] by auto
      have B: ?B using authenticate_events(2) [OF a] by blast
      from A B C show ?thesis by blast
    qed
  qed
qed

theorem ensureValidToken_refresh_fallback_witness:
  "ensureValidToken agingClient flakyRefresh
     = (Inr (), fst (snd afterFallback), snd (snd afterFallback))
   \<and> newEvents flakyRefresh (snd (snd afterFallback))
       = [Enter EnsureValidToken, Fetch (TokenRequest (RefreshGrant (JStr ''r1''))),
          Fetch (TokenRequest PasswordGrant)]
   \<and> token (fst (snd afterFallback)) = Some renewedToken
   \<and> truthy (getProp ''refresh_token'' (token agingClient))
   \<and> (\<exists>t. tokenExpiry agingClient = Some (Date t) \<and> clock flakyRefresh < t)"
proof -
  have r: "fst afterFallback = Inr ()"
    by (simp add: afterFallback_def agingClient_def flakyRefresh_def run_defs)
  have run: "ensureValidToken agingClient flakyRefresh
     = (Inr (), fst (snd afterFallback), snd (snd afterFallback))"
    using r by (simp add: afterFallback_def prod_eq_iff)
  have ev: "newEvents flakyRefresh (snd (snd afterFallback))
       = [Enter EnsureValidToken, Fetch (TokenRequest (RefreshGrant (JStr ''r1''))),
          Fetch (TokenRequest PasswordGrant)]"
    by (simp add: afterFallback_def agingClient_def flakyRefresh_def run_defs)
  have tk: "token (fst (snd afterFallback)) = Some renewedToken"
    by (simp add: afterFallback_def agingClient_def flakyRefresh_def run_defs)
  from ensureValidToken_refresh_fallback [OF run] ev
  have "truthy (getProp ''refresh_token'' (token agingClient))
   \<and> (\<exists>t. tokenExpiry agingClient = Some (Date t) \<and> clock flakyRefresh < t)"
    by blast
  with run ev tk show ?thesis by blast
qed

lemma authenticate_without_refresh_token:
  assumes "\<not> truthy (getProp ''refresh_token'' (token c))"
    and "authenticate c w = (r, c', w')"
  shows "newEvents w w' = [Fetch (TokenRequest PasswordGrant)]
       \<or> newEvents w w' = [Fetch (TokenRequest PasswordGrant), Sleep 2000,
                            Fetch (TokenRequest PasswordGrant)]
       \<or> newEvents w w' = [Fetch (TokenRequest PasswordGrant), Sleep 2000,
                            Fetch (TokenRequest PasswordGrant), Sleep 4000,
                            Fetch (TokenRequest PasswordGrant)]"
proof -
  have att: "\<And>v. authenticate_attempt c v = passwordAuthenticate c v"
    using assms(1) by (simp add: authenticate_attempt_def)
  obtain r1 c1 w1 where a1: "passwordAuthenticate c w = (r1, c1, w1)"
    by (cases "passwordAuthenticate c w") auto
  obtain r2 c2 w2 where a2: "passwordAuthenticate c (sleep 2000 w1) = (r2, c2, w2)"
    by (cases "passwordAuthenticate c (sleep 2000 w1)") auto
  obtain r3 c3 w3 where a3: "passwordAuthenticate c (sleep 4000 w2) = (r3, c3, w3)"
    by (cases "passwordAuthenticate c (sleep 4000 w2)") auto
  have t1: "trace w1 = trace w @ [Fetch (TokenRequest PasswordGrant)]"
    using passwordAuthenticate_trace [OF a1] by simp
  have t2: "trace w2 = trace w1 @ [Sleep 2000, Fetch (TokenRequest PasswordGrant)]"
    using passwordAuthenticate_trace [OF a2] by (simp add: sleep_def)
  have t3: "trace w3 = trace w2 @ [Sleep 4000, Fetch (TokenRequest PasswordGrant)]"
    using passwordAuthenticate_trace [OF a3] by (simp add: sleep_def)
  have k1: "\<And>e. r1 = Inl e \<Longrightarrow> c1 = c"
    using passwordAuthenticate_cases [OF a1] by simp
  have k2: "\<And>e. r2 = Inl e \<Longrightarrow> c2 = c"
    using passwordAuthenticate_cases [OF a2] by simp
  have "w' = w1 \<or> w' = w2 \<or> w' = w3"
  proof (cases r1)
    case (Inr u)
    with assms(2) a1 show ?thesis by (simp add: authenticate_unroll att)
  next
    case (Inl e1)
    note i1 = this
    show ?thesis
    proof (cases r2)
      case (Inr u)
      with assms(2) a1 a2 i1 k1 [OF i1] show ?thesis by (simp add: authenticate_unroll att)
    next
      case (Inl e2)
      with assms(2) a1 a2 a3 i1 k1 [OF i1] k2 [OF Inl] show ?thesis
        by (simp add: authenticate_unroll att)
    qed
  qed
  with t1 t2 t3 show ?thesis by (auto simp: newEvents_def)
qed

lemma refreshToken_rejected:
  assumes "truthy (getProp ''refresh_token'' (token c))"
    and "net w (fetches w) = Responded resp"
    and "status resp = 401 \<or> status resp = 403"
  shows "refreshToken c w =
           (Inl (CakemailAuthenticationError RefreshTokenInvalid (Some (parseErrorResponse resp))),
            c\<lparr>token := None, tokenExpiry := None\<rparr>,
            snd (fetch (TokenRequest (RefreshGrant (the (getProp ''refresh_token'' (token c))))) w))"
  using assms by (auto simp: refreshToken_def fetch_def ok_def Let_def)

lemma newEvents_split:
  "trace w0 = trace w @ pre \<Longrightarrow> trace w' = trace w0 @ es \<Longrightarrow>
     newEvents w w' = pre @ newEvents w0 w'"
  by (simp add: newEvents_def)

text \<open>
  C2 (as amended). When a refresh request that was sent is answered with status 401 or 403,
  \<open>refreshToken\<close> raises the authentication error "refresh token invalid" and clears the
  stored credential: token (with its access and refresh tokens) and expiry both become
  null. The next \<open>ensureValidToken\<close> on that client sends no refresh request; when no
  mock token is installed it sends a password grant at once (one to three grants, as
  \<open>authenticate\<close> retries); when a mock token is installed it sends nothing.
\<close>

theorem refresh_rejected_clears_credential:
  assumes "truthy (getProp ''refresh_token'' (token c))"
    and "net w (fetches w) = Responded resp"
    and "status resp = 401 \<or> status resp = 403"
    and "refreshToken c w = (r, c', w')"
    and "ensureValidToken c' v = (r2, c2, v')"
  shows "r = Inl (CakemailAuthenticationError RefreshTokenInvalid (Some (parseErrorResponse resp)))
       \<and> token c' = None \<and> tokenExpiry c' = None
       \<and> (if truthy (mockToken c) then newEvents v v' = [Enter EnsureValidToken]
          else newEvents v v' = [Enter EnsureValidToken, Fetch (TokenRequest PasswordGrant)]
             \<or> newEvents v v' = [Enter EnsureValidToken, Fetch (TokenRequest PasswordGrant),
                                  Sleep 2000, Fetch (TokenRequest PasswordGrant)]
             \<or> newEvents v v' = [Enter EnsureValidToken, Fetch (TokenRequest PasswordGrant),
                                  Sleep 2000, Fetch (TokenRequest PasswordGrant),
                                  Sleep 4000, Fetch (TokenRequest PasswordGrant)])"
proof -
  from refreshToken_rejected [OF assms(1,2,3)] assms(4)
  have r: "r = Inl (CakemailAuthenticationError RefreshTokenInvalid (Some (parseErrorResponse resp)))"
    and c': "c' = c\<lparr>token := None, tokenExpiry := None\<rparr>"
    by simp_all
  let ?v0 = "emit (Enter EnsureValidToken) v"
  have v0: "trace ?v0 = trace v @ [Enter EnsureValidToken]" by (simp add: emit_def)
  have ev: "if truthy (mockToken c) then newEvents v v' = [Enter EnsureValidToken]
          else newEvents v v' = [Enter EnsureValidToken, Fetch (TokenRequest PasswordGrant)]
             \<or> newEvents v v' = [Enter EnsureValidToken, Fetch (TokenRequest PasswordGrant),
                                  Sleep 2000, Fetch (TokenRequest PasswordGrant)]
             \<or> newEvents v v' = [Enter EnsureValidToken, Fetch (TokenRequest PasswordGrant),
                                  Sleep 2000, Fetch (TokenRequest PasswordGrant),
                                  Sleep 4000, Fetch (TokenRequest PasswordGrant)]"
  proof (cases "truthy (mockToken c)")
    case True
    with assms(5) c' have "v' = ?v0" by (simp add: ensureValidToken_branches)
    with True v0 show ?thesis by (simp add: newEvents_def)
  next
    case False
    have nt: "\<not> hasToken (getTokenStatus c' (clock v))"
      by (simp add: c' getTokenStatus_def)
    with False assms(5) c' have a: "authenticate c' ?v0 = (r2, c2, v')"
      by (simp add: ensureValidToken_branches)
    have "\<not> truthy (getProp ''refresh_token'' (token c'))" by (simp add: c')
    from authenticate_without_refresh_token [OF this a]
    have "newEvents ?v0 v' = [Fetch (TokenRequest PasswordGrant)]
       \<or> newEvents ?v0 v' = [Fetch (TokenRequest PasswordGrant), Sleep 2000,
                            Fetch (TokenRequest PasswordGrant)]
       \<or> newEvents ?v0 v' = [Fetch (TokenRequest PasswordGrant), Sleep 2000,
                            Fetch (TokenRequest PasswordGrant), Sleep 4000,
                            Fetch (TokenRequest PasswordGrant)]" .
    moreover from authenticate_events(1) [OF a] obtain es where
      "trace v' = trace ?v0 @ es" by blast
    from newEvents_split [OF v0 this]
    have "newEvents v v' = Enter EnsureValidToken # newEvents ?v0 v'" by simp
    ultimately show ?thesis using False by auto
  qed
  from r c' ev show ?thesis by simp
qed

theorem refresh_rejected_clears_credential_witness:
  "truthy (getProp ''refresh_token'' (token agingClient))
   \<and> net revokedThenGranted (fetches revokedThenGranted) = errorReply 401
   \<and> fst afterRevocation
       = Inl (CakemailAuthenticationError RefreshTokenInvalid (Some (JObj [(''detail'', JStr ''no'')])))
   \<and> token (fst (snd afterRevocation)) = None
   \<and> tokenExpiry (fst (snd afterRevocation)) = None
   \<and> newEvents (snd (snd afterRevocation)) (snd (snd afterRecovery))
       = [Enter EnsureValidToken, Fetch (TokenRequest PasswordGrant)]
   \<and> token (fst (snd afterRecovery)) = Some renewedToken"
proof -
  have h1: "truthy (getProp ''refresh_token'' (token agingClient))"
    by (simp add: agingClient_def sampleToken_def)
  have h2: "net revokedThenGranted (fetches revokedThenGranted)
              = Responded \<lparr>status = 401, statusText = ''ERR'',
                  contentType = Some ''text/plain'', bodyText = Some ''no'', bodyJson = None\<rparr>"
    by (simp add: revokedThenGranted_def worldOf_def errorReply_def)
  have h3: "status \<lparr>status = 401, statusText = ''ERR'',
                  contentType = Some ''text/plain'', bodyText = Some ''no'', bodyJson = None\<rparr> = 401
          \<or> status \<lparr>status = 401, statusText = ''ERR'',
                  contentType = Some ''text/plain'', bodyText = Some ''no'', bodyJson = None\<rparr> = 403"
    by simp
  have h4: "refreshToken agingClient revokedThenGranted
              = (fst afterRevocation, fst (snd afterRevocation), snd (snd afterRevocation))"
    by (simp add: afterRevocation_def)
  have h5: "ensureValidToken (fst (snd afterRevocation)) (snd (snd afterRevocation))
              = (fst afterRecovery, fst (snd afterRecovery), snd (snd afterRecovery))"
    by (simp add: afterRecovery_def)
  have ev: "newEvents (snd (snd afterRevocation)) (snd (snd afterRecovery))
       = [Enter EnsureValidToken, Fetch (TokenRequest PasswordGrant)]"
    by (simp add: afterRecovery_def afterRevocation_def agingClient_def revokedThenGranted_def run_defs)
  have tk: "token (fst (snd afterRecovery)) = Some renewedToken"
    by (simp add: afterRecovery_def afterRevocation_def agingClient_def revokedThenGranted_def run_defs)
  from refresh_rejected_clears_credential [OF h1 h2 h3 h4 h5]
  have "fst afterRevocation
       = Inl (CakemailAuthenticationError RefreshTokenInvalid (Some (JObj [(''detail'', JStr ''no'')])))
   \<and> token (fst (snd afterRevocation)) = None
   \<and> tokenExpiry (fst (snd afterRevocation)) = None"
    by (simp add: parseErrorResponse_def)
  with h1 h2 ev tk show ?thesis by (simp add: errorReply_def)
qed

text \<open>
  C2, the claim as stated fails under a mock token: the refresh is answered with 401 and
  the credential is cleared, yet the next \<open>ensureValidToken\<close> returns at its first
  statement and performs no password acquisition.
\<close>

theorem refresh_rejected_mock_token_counterexample:
  "fst mockedAfterRevocation
     = Inl (CakemailAuthenticationError RefreshTokenInvalid (Some (JObj [(''detail'', JStr ''no'')])))
   \<and> token (fst (snd mockedAfterRevocation)) = None
   \<and> fst mockedNextCall = Inr ()
   \<and> newEvents (snd (snd mockedAfterRevocation)) (snd (snd mockedNextCall))
       = [Enter EnsureValidToken]
   \<and> passwordFetches (snd (snd mockedNextCall)) = 0
   \<and> token (fst (snd mockedNextCall)) = None"
  by (simp add: mockedNextCall_def mockedAfterRevocation_def mockedClient_def
      revokedThenGranted_def passwordFetches_def run_defs)

section \<open>Request executor: properties\<close>

lemma withTimeout_cases:
  "withTimeout ms req w =
     (if lag w (fetches w) > ms
      then (Inl (CakemailNetworkError ''timed out''),
            w\<lparr>clock := clock w + int ms, fetches := fetches w + 1, trace := trace w @ [Fetch req]\<rparr>)
      else (case net w (fetches w) of
              Rejected msg \<Rightarrow> Inl (JsError msg)
            | Responded r \<Rightarrow> Inr r,
            snd (fetch req w)))"
  by (simp add: withTimeout_def fetch_def split: reply.splits)



lemma retry_loop_step:
  "retry_loop pol op n w =
     (case op (emit (Enter (RetryAttempt n)) w) of
        (Inr v, w') \<Rightarrow> (Inr v, w')
      | (Inl e, w') \<Rightarrow>
          if \<not> isRetryable e then (Inl e, w')
          else if n \<ge> maxAttempts pol then (Inl e, w')
          else retry_loop pol op (n + 1) (sleep (backoffDelay pol (n + 1)) w'))"
  by (rule retry_loop.simps)

lemma attemptsMade_simps:
  "attemptsMade (emit (Enter (RetryAttempt n)) w) = attemptsMade w + 1"
  "attemptsMade (sleep d w) = attemptsMade w"
  by (simp_all add: attemptsMade_def emit_def sleep_def)

lemma retry_loop_attempts:
  assumes "\<And>v r v'. op v = (r, v') \<Longrightarrow> attemptsMade v' = attemptsMade v"
  shows "attemptsMade (snd (retry_loop pol op n w)) \<le> attemptsMade w + (maxAttempts pol - n) + 1"
  using assms
proof (induction pol op n w rule: retry_loop.induct)
  case (1 pol op n w)
  obtain r w' where o: "op (emit (Enter (RetryAttempt n)) w) = (r, w')"
    by (cases "op (emit (Enter (RetryAttempt n)) w)") auto
  from "1.prems" [OF o] have cnt: "attemptsMade w' = attemptsMade w + 1"
    by (simp add: attemptsMade_simps)
  show ?case
  proof (cases r)
    case (Inr v)
    with o cnt show ?thesis by (subst retry_loop_step) simp
  next
    case (Inl e)
    show ?thesis
    proof (cases "isRetryable e \<and> n < maxAttempts pol")
      case False
      with o cnt Inl show ?thesis by (subst retry_loop_step) auto
    next
      case True
      have "attemptsMade (snd (retry_loop pol op (n + 1) (sleep (backoffDelay pol (n + 1)) w')))
              \<le> attemptsMade (sleep (backoffDelay pol (n + 1)) w') + (maxAttempts pol - (n + 1)) + 1"
        using "1.IH" [OF o [symmetric] Inl] True "1.prems" by auto
      moreover have "retry_loop pol op n w
                       = retry_loop pol op (n + 1) (sleep (backoffDelay pol (n + 1)) w')"
        using True o Inl by (subst retry_loop_step) simp
      ultimately show ?thesis using True cnt by (simp add: attemptsMade_simps) arith
    qed
  qed
qed

text \<open>
  C3. The retry manager classifies network errors, 5xx API errors and 429 as retryable,
  and every other 4xx API error and every authentication error as not retryable. A failure
  that is not retryable ends the loop at the attempt where it occurs, the first included,
  and is returned as it is. A retryable failure is followed, after the backoff delay, by
  the next attempt while the attempt number is below \<open>maxAttempts\<close>, and is returned
  once the budget is used up. An operation that starts no attempts of its own is run at
  most \<open>maxAttempts\<close> times (once when \<open>maxAttempts\<close> is 0).
\<close>

theorem executeWithRetry_failure_classification:
  "isRetryable (CakemailNetworkError m)
   \<and> ((500 \<le> s \<and> s \<le> 599) \<or> s = 429 \<longrightarrow> isRetryable (CakemailApiError s b))
   \<and> (400 \<le> s \<and> s \<le> 499 \<and> s \<noteq> 429 \<longrightarrow> \<not> isRetryable (CakemailApiError s b))
   \<and> \<not> isRetryable (CakemailAuthenticationError f eb)
   \<and> (\<forall>e w'. op (emit (Enter (RetryAttempt 1)) w) = (Inl e, w') \<and> \<not> isRetryable e
          \<longrightarrow> executeWithRetry pol op w = (Inl e, w'))
   \<and> (\<forall>n e w'. op (emit (Enter (RetryAttempt n)) w) = (Inl e, w') \<and> \<not> isRetryable e
          \<longrightarrow> retry_loop pol op n w = (Inl e, w'))
   \<and> (\<forall>n e w'. op (emit (Enter (RetryAttempt n)) w) = (Inl e, w') \<and> isRetryable e
               \<and> n < maxAttempts pol
          \<longrightarrow> retry_loop pol op n w
                = retry_loop pol op (n + 1) (sleep (backoffDelay pol (n + 1)) w'))
   \<and> (\<forall>n e w'. op (emit (Enter (RetryAttempt n)) w) = (Inl e, w') \<and> isRetryable e
               \<and> maxAttempts pol \<le> n
          \<longrightarrow> retry_loop pol op n w = (Inl e, w'))
   \<and> ((\<forall>v r v'. op v = (r, v') \<longrightarrow> attemptsMade v' = attemptsMade v)
          \<longrightarrow> attemptsMade (snd (executeWithRetry pol op w))
                \<le> attemptsMade w + max 1 (maxAttempts pol))"
proof (intro conjI allI impI)
  show "isRetryable (CakemailNetworkError m)" by simp
  show "isRetryable (CakemailApiError s b)" if "(500 \<le> s \<and> s \<le> 599) \<or> s = 429"
    using that by simp
  show "\<not> isRetryable (CakemailApiError s b)" if "400 \<le> s \<and> s \<le> 499 \<and> s \<noteq> 429"
    using that by simp
  show "\<not> isRetryable (CakemailAuthenticationError f eb)" by simp
  show "executeWithRetry pol op w = (Inl e, w')"
    if "op (emit (Enter (RetryAttempt 1)) w) = (Inl e, w') \<and> \<not> isRetryable e" for e w'
    using that unfolding executeWithRetry_def by (subst retry_loop_step) simp
  show "retry_loop pol op n w = (Inl e, w')"
    if "op (emit (Enter (RetryAttempt n)) w) = (Inl e, w') \<and> \<not> isRetryable e" for n e w'
    using that by (subst retry_loop_step) simp
  show "retry_loop pol op n w = retry_loop pol op (n + 1) (sleep (backoffDelay pol (n + 1)) w')"
    if "op (emit (Enter (RetryAttempt n)) w) = (Inl e, w') \<and> isRetryable e \<and> n < maxAttempts pol"
    for n e w'
    using that by (subst retry_loop_step) simp
  show "retry_loop pol op n w = (Inl e, w')"
    if "op (emit (Enter (RetryAttempt n)) w) = (Inl e, w') \<and> isRetryable e \<and> maxAttempts pol \<le> n"
    for n e w'
    using that by (subst retry_loop_step) simp
  show "attemptsMade (snd (executeWithRetry pol op w)) \<le> attemptsMade w + max 1 (maxAttempts pol)"
    if q: "\<forall>v r v'. op v = (r, v') \<longrightarrow> attemptsMade v' = attemptsMade v"
  proof -
    from q have "\<And>v r v'. op v = (r, v') \<Longrightarrow> attemptsMade v' = attemptsMade v" by blast
    from retry_loop_attempts [of op pol 1 w, OF this] show ?thesis
      by (auto simp: executeWithRetry_def max_def)
  qed
qed

lemmas retry_unfold =
  retry_loop_step [where n = "Suc 0"] retry_loop_step [where n = "Suc (Suc 0)"]
  retry_loop_step [where n = "Suc (Suc (Suc 0))"]
  retry_loop_step [where n = 2] retry_loop_step [where n = 3]

lemmas executor_defs = executeWithRetry_def operation_def executeRequest_def withTimeout_cases
  rateLimiter_acquire_def createCakemailError_def backoffDelay_def plainPipeline_def
  signedInClient_def campaign7_def jsonReply_def attemptsMade_def

theorem executeWithRetry_failure_classification_witness:
  "fst (operation plainPipeline signedInClient ''GET'' campaign7
          (emit (Enter (RetryAttempt 1)) (worldOf (\<lambda>n. errorReply 404))))
     = Inl (CakemailApiError 404 (JObj [(''detail'', JStr ''no'')]))
   \<and> \<not> isRetryable (CakemailApiError 404 (JObj [(''detail'', JStr ''no'')]))
   \<and> fst (executeWithRetry (retryPolicy plainPipeline)
            (operation plainPipeline signedInClient ''GET'' campaign7)
            (worldOf (\<lambda>n. errorReply 404)))
       = Inl (CakemailApiError 404 (JObj [(''detail'', JStr ''no'')]))
   \<and> attemptsMade (snd (executeWithRetry (retryPolicy plainPipeline)
            (operation plainPipeline signedInClient ''GET'' campaign7)
            (worldOf (\<lambda>n. errorReply 404)))) = 1
   \<and> fst (executeWithRetry (retryPolicy plainPipeline)
            (operation plainPipeline signedInClient ''GET'' campaign7) recovering)
       = Inr (JObj [(''data'', JArr [])])
   \<and> attemptsMade (snd (executeWithRetry (retryPolicy plainPipeline)
            (operation plainPipeline signedInClient ''GET'' campaign7) recovering)) = 3"
proof -
  let ?op = "operation plainPipeline signedInClient ''GET'' campaign7"
  let ?w = "worldOf (\<lambda>n. errorReply 404)"
  let ?e = "CakemailApiError 404 (JObj [(''detail'', JStr ''no'')])"
  have first: "?op (emit (Enter (RetryAttempt 1)) ?w)
                 = (Inl ?e, snd (?op (emit (Enter (RetryAttempt 1)) ?w)))"
    by (simp add: executor_defs run_defs prod_eq_iff)
  have nr: "\<not> isRetryable ?e" by simp
  from executeWithRetry_failure_classification
         [where op = ?op and w = ?w and pol = "retryPolicy plainPipeline"] first nr
  have surf: "executeWithRetry (retryPolicy plainPipeline) ?op ?w
          = (Inl ?e, snd (?op (emit (Enter (RetryAttempt 1)) ?w)))"
    by blast
  have once: "attemptsMade (snd (?op (emit (Enter (RetryAttempt 1)) ?w))) = 1"
    by (simp add: executor_defs run_defs)
  have rec1: "fst (executeWithRetry (retryPolicy plainPipeline) ?op recovering)
       = Inr (JObj [(''data'', JArr [])])"
    by (simp add: recovering_def executor_defs run_defs retry_unfold)
  have rec2: "attemptsMade (snd (executeWithRetry (retryPolicy plainPipeline) ?op recovering)) = 3"
    by (simp add: recovering_def executor_defs run_defs retry_unfold)
  have first': "fst (?op (emit (Enter (RetryAttempt 1)) ?w)) = Inl ?e"
    by (subst first) simp
  have surf': "fst (executeWithRetry (retryPolicy plainPipeline) ?op ?w) = Inl ?e"
    by (subst surf) simp
  have once': "attemptsMade (snd (executeWithRetry (retryPolicy plainPipeline) ?op ?w)) = 1"
    using once by (subst surf) simp
  from first' nr surf' once' rec1 rec2 show ?thesis by blast
qed

section \<open>The order of the stages: properties\<close>

lemma runOrder_append:
  "runOrder step ph (xs @ ys) =
     (case runOrder step ph xs of None \<Rightarrow> None | Some ph' \<Rightarrow> runOrder step ph' ys)"
  by (induction xs arbitrary: ph) (auto split: option.splits)

lemma credential_events_accepted:
  "list_all isCredentialEvent es \<Longrightarrow> runOrder (observedOrder lim brk) Credential es = Some Credential"
  by (induction es)
     (auto simp: isCredentialEvent_def observedOrder_def split: event.splits request.splits)

lemma passwordAuthenticate_credential_events:
  assumes "passwordAuthenticate c w = (r, c', w')"
  shows "\<exists>es. trace w' = trace w @ es \<and> list_all isCredentialEvent es"
  using passwordAuthenticate_trace [OF assms] by (simp add: isCredentialEvent_def)

lemma refreshToken_credential_events:
  assumes "refreshToken c w = (r, c', w')"
  shows "\<exists>es. trace w' = trace w @ es \<and> list_all isCredentialEvent es"
proof (cases "truthy (getProp ''refresh_token'' (token c))")
  case True
  with refreshToken_trace [OF assms] show ?thesis by (simp add: isCredentialEvent_def)
next
  case False
  with refreshToken_trace [OF assms] have "trace w' = trace w @ []" by simp
  then show ?thesis by (intro exI [of _ "[]"]) simp
qed

lemma authenticate_attempt_credential_events:
  assumes "authenticate_attempt c w = (r, c', w')"
  shows "\<exists>es. trace w' = trace w @ es \<and> list_all isCredentialEvent es"
proof -
  obtain r1 c1 w1 where rf: "refreshToken c w = (r1, c1, w1)"
    by (cases "refreshToken c w") auto
  obtain r2 c2 w2 where pw: "passwordAuthenticate c1 w1 = (r2, c2, w2)"
    by (cases "passwordAuthenticate c1 w1") auto
  obtain r3 c3 w3 where pw0: "passwordAuthenticate c w = (r3, c3, w3)"
    by (cases "passwordAuthenticate c w") auto
  from refreshToken_credential_events [OF rf] obtain e1 where
    e1: "trace w1 = trace w @ e1" "list_all isCredentialEvent e1" by blast
  from passwordAuthenticate_credential_events [OF pw] obtain e2 where
    e2: "trace w2 = trace w1 @ e2" "list_all isCredentialEvent e2" by blast
  from passwordAuthenticate_credential_events [OF pw0] obtain e3 where
    e3: "trace w3 = trace w @ e3" "list_all isCredentialEvent e3" by blast
  have "w' = w1 \<or> w' = w2 \<or> w' = w3"
    using assms rf pw pw0 unfolding authenticate_attempt_def
    by (auto split: if_splits sum.splits)
  then show ?thesis
  proof (elim disjE)
    assume "w' = w1" with e1 show ?thesis by blast
  next
    assume "w' = w2"
    with e1 e2 have "trace w' = trace w @ (e1 @ e2) \<and> list_all isCredentialEvent (e1 @ e2)"
      by simp
    then show ?thesis by blast
  next
    assume "w' = w3" with e3 show ?thesis by blast
  qed
qed

lemma authenticate_credential_events:
  assumes "authenticate c w = (r, c', w')"
  shows "\<exists>es. trace w' = trace w @ es \<and> list_all isCredentialEvent es"
proof -
  obtain r1 c1 w1 where a1: "authenticate_attempt c w = (r1, c1, w1)"
    by (cases "authenticate_attempt c w") auto
  obtain r2 c2 w2 where a2: "authenticate_attempt c1 (sleep 2000 w1) = (r2, c2, w2)"
    by (cases "authenticate_attempt c1 (sleep 2000 w1)") auto
  obtain r3 c3 w3 where a3: "authenticate_attempt c2 (sleep 4000 w2) = (r3, c3, w3)"
    by (cases "authenticate_attempt c2 (sleep 4000 w2)") auto
  from authenticate_attempt_credential_events [OF a1] obtain e1 where
    e1: "trace w1 = trace w @ e1" "list_all isCredentialEvent e1" by blast
  from authenticate_attempt_credential_events [OF a2] obtain e2 where
    e2: "trace w2 = trace w1 @ Sleep 2000 # e2" "list_all isCredentialEvent e2"
    by (auto simp: sleep_def)
  from authenticate_attempt_credential_events [OF a3] obtain e3 where
    e3: "trace w3 = trace w2 @ Sleep 4000 # e3" "list_all isCredentialEvent e3"
    by (auto simp: sleep_def)
  have sl: "\<And>d. isCredentialEvent (Sleep d)" by (simp add: isCredentialEvent_def)
  have "w' = w1 \<or> w' = w2 \<or> w' = w3"
    using assms a1 a2 a3 by (auto simp: authenticate_unroll split: sum.splits)
  then show ?thesis
  proof (elim disjE)
    assume "w' = w1" with e1 show ?thesis by blast
  next
    assume "w' = w2"
    with e1 e2 sl have "trace w' = trace w @ (e1 @ Sleep 2000 # e2)
        \<and> list_all isCredentialEvent (e1 @ Sleep 2000 # e2)" by simp
    then show ?thesis by blast
  next
    assume "w' = w3"
    with e1 e2 e3 sl have "trace w' = trace w @ (e1 @ Sleep 2000 # e2 @ Sleep 4000 # e3)
        \<and> list_all isCredentialEvent (e1 @ Sleep 2000 # e2 @ Sleep 4000 # e3)" by simp
    then show ?thesis by blast
  qed
qed

lemma ensureValidToken_credential_events:
  assumes "ensureValidToken c w = (r, c', w')"
  shows "\<exists>es. trace w' = trace w @ Enter EnsureValidToken # es \<and> list_all isCredentialEvent es"
proof -
  let ?w0 = "emit (Enter EnsureValidToken) w"
  have w0: "trace ?w0 = trace w @ [Enter EnsureValidToken]" by (simp add: emit_def)
  obtain r1 c1 w1 where rf: "refreshToken c ?w0 = (r1, c1, w1)"
    by (cases "refreshToken c ?w0") auto
  obtain r2 c2 w2 where au: "authenticate c1 w1 = (r2, c2, w2)"
    by (cases "authenticate c1 w1") auto
  obtain r3 c3 w3 where au0: "authenticate c ?w0 = (r3, c3, w3)"
    by (cases "authenticate c ?w0") auto
  from refreshToken_credential_events [OF rf] obtain e1 where
    e1: "trace w1 = trace ?w0 @ e1" "list_all isCredentialEvent e1" by blast
  from authenticate_credential_events [OF au] obtain e2 where
    e2: "trace w2 = trace w1 @ e2" "list_all isCredentialEvent e2" by blast
  from authenticate_credential_events [OF au0] obtain e3 where
    e3: "trace w3 = trace ?w0 @ e3" "list_all isCredentialEvent e3" by blast
  have "w' = ?w0 \<or> w' = w1 \<or> w' = w2 \<or> w' = w3"
    using assms rf au au0 by (auto simp: ensureValidToken_branches split: if_splits sum.splits)
  then show ?thesis
  proof (elim disjE)
    assume "w' = ?w0"
    with w0 have "trace w' = trace w @ Enter EnsureValidToken # [] \<and> list_all isCredentialEvent []"
      by simp
    then show ?thesis by blast
  next
    assume "w' = w1" with e1 w0 show ?thesis by auto
  next
    assume "w' = w2"
    with e1 e2 w0 have "trace w' = trace w @ Enter EnsureValidToken # (e1 @ e2)
        \<and> list_all isCredentialEvent (e1 @ e2)" by simp
    then show ?thesis by blast
  next
    assume "w' = w3" with e3 w0 show ?thesis by auto
  qed
qed

lemma operation_events:
  assumes "operation p c m ep v = (r, v')"
  shows "\<exists>es. trace v' = trace v @ es
           \<and> (runOrder (stagesOf p) (Attempting n) es = Some (Called n)
              \<or> ((\<exists>ph. runOrder (stagesOf p) (Attempting n) es = Some ph)
                  \<and> (\<forall>e. r = Inl e \<longrightarrow> \<not> isRetryable e)))"
proof -
  let ?tok = "if truthy (mockToken c) then mockToken c else token c"
  let ?v0 = "if rateLimiter p then rateLimiter_acquire v else v"
  let ?pre = "if rateLimiter p then [Enter RateLimiterAcquire] else []"
  have v0: "trace ?v0 = trace v @ ?pre"
    by (simp add: rateLimiter_acquire_def emit_def)
  have ex: "executeRequest p c m ep ?v0 = (r, v')"
    using assms by (simp add: operation_def)
  show ?thesis
  proof (cases "truthy ?tok")
    case False
    with ex have "v' = ?v0" "r = Inl (CakemailAuthenticationError NoAuthenticationToken None)"
      by (simp_all add: executeRequest_def Let_def)
    with v0 have "trace v' = trace v @ ?pre
        \<and> (\<exists>ph. runOrder (stagesOf p) (Attempting n) ?pre = Some ph)
        \<and> (\<forall>e. r = Inl e \<longrightarrow> \<not> isRetryable e)"
      by (auto simp: stagesOf_def observedOrder_def)
    then show ?thesis by blast
  next
    case True
    let ?req = "ApiRequest m ep (getProp ''access_token'' ?tok)"
    from True ex have "trace v' = trace ?v0 @ [Fetch ?req]"
      by (auto simp: executeRequest_def Let_def withTimeout_cases fetch_def
          split: if_splits reply.splits sum.splits error.splits prod.splits)
    with v0 have "trace v' = trace v @ (?pre @ [Fetch ?req])
        \<and> runOrder (stagesOf p) (Attempting n) (?pre @ [Fetch ?req]) = Some (Called n)"
      by (auto simp: stagesOf_def observedOrder_def)
    then show ?thesis by blast
  qed
qed

lemma retry_loop_order:
  assumes op: "\<And>v r v' n. op v = (r, v') \<Longrightarrow>
           \<exists>es. trace v' = trace v @ es
             \<and> (runOrder step (Attempting n) es = Some (Called n)
                \<or> ((\<exists>ph. runOrder step (Attempting n) es = Some ph)
                    \<and> (\<forall>e. r = Inl e \<longrightarrow> \<not> isRetryable e)))"
    and called: "\<And>n d. step (Called n) (Sleep d) = Some (BackingOff n)"
    and again: "\<And>n. step (BackingOff n) (Enter (RetryAttempt (n + 1))) = Some (Attempting (n + 1))"
  shows "step ph (Enter (RetryAttempt n)) = Some (Attempting n) \<Longrightarrow>
         \<exists>es ph'. trace (snd (retry_loop pol op n w)) = trace w @ es \<and> runOrder step ph es = Some ph'"
  using op
proof (induction pol op n w arbitrary: ph rule: retry_loop.induct)
  case (1 pol op n w)
  let ?w0 = "emit (Enter (RetryAttempt n)) w"
  obtain r w' where o: "op ?w0 = (r, w')" by (cases "op ?w0") auto
  from "1.prems"(2) [OF o, of n] obtain es1 where
    es1: "trace w' = trace ?w0 @ es1"
      "runOrder step (Attempting n) es1 = Some (Called n)
        \<or> ((\<exists>ph. runOrder step (Attempting n) es1 = Some ph)
            \<and> (\<forall>e. r = Inl e \<longrightarrow> \<not> isRetryable e))"
    by blast
  have tr: "trace w' = trace w @ (Enter (RetryAttempt n) # es1)"
    using es1(1) by (simp add: emit_def)
  from es1(2) obtain ph1 where ph1: "runOrder step (Attempting n) es1 = Some ph1" by blast
  have acc: "runOrder step ph (Enter (RetryAttempt n) # es1) = Some ph1"
    using "1.prems"(1) ph1 by simp
  show ?case
  proof (cases "\<exists>e. r = Inl e \<and> isRetryable e \<and> n < maxAttempts pol")
    case False
    then have "retry_loop pol op n w = (r, w')"
      using o by (subst retry_loop_step) (auto split: sum.splits)
    with tr acc show ?thesis by auto
  next
    case True
    then obtain e where e: "r = Inl e" "isRetryable e" "n < maxAttempts pol" by blast
    with es1(2) have c: "runOrder step (Attempting n) es1 = Some (Called n)" by blast
    let ?d = "backoffDelay pol (n + 1)"
    let ?w2 = "sleep ?d w'"
    have eq: "retry_loop pol op n w = retry_loop pol op (n + 1) ?w2"
      using o e by (subst retry_loop_step) simp
    have tr2: "trace ?w2 = trace w @ (Enter (RetryAttempt n) # es1 @ [Sleep ?d])"
      using tr by (simp add: sleep_def)
    have acc2: "runOrder step ph (Enter (RetryAttempt n) # es1 @ [Sleep ?d]) = Some (BackingOff n)"
      using "1.prems"(1) c called by (simp add: runOrder_append)
    from "1.IH" [OF o [symmetric] e(1) _ _ again "1.prems"(2)] e
    obtain es3 ph3 where
      es3: "trace (snd (retry_loop pol op (n + 1) ?w2)) = trace ?w2 @ es3"
        "runOrder step (BackingOff n) es3 = Some ph3"
      by auto
    have "trace (snd (retry_loop pol op n w))
            = trace w @ ((Enter (RetryAttempt n) # es1 @ [Sleep ?d]) @ es3)"
      using eq es3(1) tr2 by simp
    moreover have "runOrder step ph ((Enter (RetryAttempt n) # es1 @ [Sleep ?d]) @ es3) = Some ph3"
      using acc2 es3(2) by (subst runOrder_append) simp
    ultimately show ?thesis by blast
  qed
qed

lemma executeWithRetry_order:
  assumes "stagesOf p ph (Enter (RetryAttempt 1)) = Some (Attempting 1)"
  shows "\<exists>es ph'. trace (snd (executeWithRetry pol (operation p c m ep) v)) = trace v @ es
            \<and> runOrder (stagesOf p) ph es = Some ph'"
  unfolding executeWithRetry_def
proof (rule retry_loop_order [where step = "stagesOf p" and op = "operation p c m ep"])
  show "\<exists>es. trace v' = trace v @ es
           \<and> (runOrder (stagesOf p) (Attempting n) es = Some (Called n)
              \<or> ((\<exists>ph. runOrder (stagesOf p) (Attempting n) es = Some ph)
                  \<and> (\<forall>e. r = Inl e \<longrightarrow> \<not> isRetryable e)))"
    if "operation p c m ep v = (r, v')" for v r v' n
    using operation_events [OF that] .
  show "stagesOf p (Called n) (Sleep d) = Some (BackingOff n)" for n d
    by (simp add: stagesOf_def observedOrder_def)
  show "stagesOf p (BackingOff n) (Enter (RetryAttempt (n + 1))) = Some (Attempting (n + 1))" for n
    by (simp add: stagesOf_def observedOrder_def)
  show "stagesOf p ph (Enter (RetryAttempt 1)) = Some (Attempting 1)" by (rule assms)
qed

lemma observedOrder_past_credential:
  assumes "observedOrder lim brk ph e = Some ph'" "ph \<noteq> Start" "ph \<noteq> Credential"
  shows "ph' \<noteq> Start \<and> ph' \<noteq> Credential"
  using assms
  by (cases ph)
     (auto simp: observedOrder_def split: event.splits stage.splits request.splits if_splits)

lemma runOrder_past_credential:
  assumes "runOrder (observedOrder lim brk) ph es = Some ph'" "ph \<noteq> Start" "ph \<noteq> Credential"
  shows "ph' \<noteq> Start \<and> ph' \<noteq> Credential"
  using assms
proof (induction es arbitrary: ph)
  case Nil
  then show ?case by simp
next
  case (Cons e es)
  from Cons.prems(1) obtain ph1 where
    s: "observedOrder lim brk ph e = Some ph1" and r: "runOrder (observedOrder lim brk) ph1 es = Some ph'"
    by (auto split: option.splits)
  from observedOrder_past_credential [OF s Cons.prems(2,3)] Cons.IH [OF r] show ?case by blast
qed

lemma queued_pipeline_order:
  "\<exists>es ph'. trace (snd (snd (snd
        (requestQueue_add
            (\<lambda>v. case circuitBreaker p of
                    Some b \<Rightarrow>
                      (case circuitBreaker_execute b
                              (executeWithRetry (retryPolicy p) (operation p c' m ep)) v of
                         (res, b', v') \<Rightarrow> (res, p\<lparr>circuitBreaker := Some b'\<rparr>, c', v'))
                  | None \<Rightarrow>
                      (case executeWithRetry (retryPolicy p) (operation p c' m ep) v of
                         (res, v') \<Rightarrow> (res, p, c', v')))
            w')))) = trace w' @ es
        \<and> runOrder (stagesOf p) Credential es = Some ph' \<and> ph' \<noteq> Start \<and> ph' \<noteq> Credential"
proof -
  let ?w1 = "emit (Enter QueueAdmission) w'"
  let ?run = "executeWithRetry (retryPolicy p) (operation p c' m ep)"
  have q: "trace ?w1 = trace w' @ [Enter QueueAdmission]" by (simp add: emit_def)
  have shape: "\<exists>es ph'. trace (snd (snd (snd
        (case circuitBreaker p of
                    Some b \<Rightarrow>
                      (case circuitBreaker_execute b ?run ?w1 of
                         (res, b', v') \<Rightarrow> (res, p\<lparr>circuitBreaker := Some b'\<rparr>, c', v'))
                  | None \<Rightarrow>
                      (case ?run ?w1 of
                         (res, v') \<Rightarrow> (res, p, c', v')))))) = trace ?w1 @ es
        \<and> runOrder (stagesOf p) Queued es = Some ph'"
  proof (cases "circuitBreaker p")
    case None
    then have "stagesOf p Queued (Enter (RetryAttempt 1)) = Some (Attempting 1)"
      by (simp add: stagesOf_def observedOrder_def)
    from executeWithRetry_order [OF this, of "retryPolicy p" c' m ep ?w1] None
    show ?thesis by (auto split: prod.splits)
  next
    case (Some b)
    let ?w2 = "emit (Enter CircuitBreakerGate) ?w1"
    have g: "trace ?w2 = trace ?w1 @ [Enter CircuitBreakerGate]" by (simp add: emit_def)
    have gs: "stagesOf p Queued (Enter CircuitBreakerGate) = Some Gated"
      using Some by (simp add: stagesOf_def observedOrder_def)
    have "stagesOf p Gated (Enter (RetryAttempt 1)) = Some (Attempting 1)"
      by (simp add: stagesOf_def observedOrder_def)
    from executeWithRetry_order [OF this, of "retryPolicy p" c' m ep ?w2] obtain es ph' where
      es: "trace (snd (?run ?w2)) = trace ?w2 @ es" "runOrder (stagesOf p) Gated es = Some ph'"
      by blast
    have "snd (snd (circuitBreaker_execute b ?run ?w1)) = ?w2
        \<or> snd (snd (circuitBreaker_execute b ?run ?w1)) = snd (?run ?w2)"
      by (auto simp: circuitBreaker_execute_def Let_def split: prod.splits sum.splits)
    then show ?thesis
    proof
      assume "snd (snd (circuitBreaker_execute b ?run ?w1)) = ?w2"
      with g gs Some have "trace (snd (snd (snd
        (case circuitBreaker p of
                    Some b \<Rightarrow>
                      (case circuitBreaker_execute b ?run ?w1 of
                         (res, b', v') \<Rightarrow> (res, p\<lparr>circuitBreaker := Some b'\<rparr>, c', v'))
                  | None \<Rightarrow>
                      (case ?run ?w1 of
                         (res, v') \<Rightarrow> (res, p, c', v')))))) = trace ?w1 @ [Enter CircuitBreakerGate]
        \<and> runOrder (stagesOf p) Queued [Enter CircuitBreakerGate] = Some Gated"
        by (auto split: prod.splits)
      then show ?thesis by blast
    next
      assume "snd (snd (circuitBreaker_execute b ?run ?w1)) = snd (?run ?w2)"
      with g gs Some es have "trace (snd (snd (snd
        (case circuitBreaker p of
                    Some b \<Rightarrow>
                      (case circuitBreaker_execute b ?run ?w1 of
                         (res, b', v') \<Rightarrow> (res, p\<lparr>circuitBreaker := Some b'\<rparr>, c', v'))
                  | None \<Rightarrow>
                      (case ?run ?w1 of
                         (res, v') \<Rightarrow> (res, p, c', v')))))) = trace ?w1 @ (Enter CircuitBreakerGate # es)
        \<and> runOrder (stagesOf p) Queued (Enter CircuitBreakerGate # es) = Some ph'"
        by (auto split: prod.splits)
      then show ?thesis by blast
    qed
  qed
  then obtain es ph' where
    es: "trace (snd (snd (snd
        (case circuitBreaker p of
                    Some b \<Rightarrow>
                      (case circuitBreaker_execute b ?run ?w1 of
                         (res, b', v') \<Rightarrow> (res, p\<lparr>circuitBreaker := Some b'\<rparr>, c', v'))
                  | None \<Rightarrow>
                      (case ?run ?w1 of
                         (res, v') \<Rightarrow> (res, p, c', v')))))) = trace ?w1 @ es"
      "runOrder (stagesOf p) Queued es = Some ph'"
    by blast
  from runOrder_past_credential [OF es(2) [unfolded stagesOf_def]]
  have past: "ph' \<noteq> Start \<and> ph' \<noteq> Credential" by simp
  have "stagesOf p Credential (Enter QueueAdmission) = Some Queued"
    by (simp add: stagesOf_def observedOrder_def)
  with es q past show ?thesis
    by (intro exI [of _ "Enter QueueAdmission # es"] exI [of _ ph'])
       (simp add: requestQueue_add_def)
qed

text \<open>
  C1 (as amended). Every call of \<open>makeRequest\<close> passes through the stages in this order:
  first, once, the credential is ensured valid (with whatever token requests and pauses
  that takes); if that fails its error is returned and nothing else happens; otherwise
  queue admission, then the circuit-breaker gate (when a breaker is configured), then the
  retry manager, and within each attempt the rate limiter is acquired (when one is
  configured) and then the network call is made and its response classified. No
  credential validation takes place after queue admission, in particular none inside a
  retried attempt.
\<close>

theorem makeRequest_stage_order:
  "\<exists>ph. runOrder (stagesOf p) Start (newEvents w (snd (snd (snd (makeRequest p c m ep w)))))
           = Some ph
        \<and> (case fst (ensureValidToken c w) of
             Inl e \<Rightarrow> ph = Credential \<and> fst (makeRequest p c m ep w) = Inl e
           | Inr u \<Rightarrow> ph \<noteq> Start \<and> ph \<noteq> Credential)"
proof -
  obtain r c' w' where ev: "ensureValidToken c w = (r, c', w')"
    by (cases "ensureValidToken c w") auto
  from ensureValidToken_credential_events [OF ev] obtain es where
    es: "trace w' = trace w @ Enter EnsureValidToken # es" "list_all isCredentialEvent es"
    by blast
  have st: "stagesOf p Start (Enter EnsureValidToken) = Some Credential"
    by (simp add: stagesOf_def observedOrder_def)
  have cred: "runOrder (stagesOf p) Start (Enter EnsureValidToken # es) = Some Credential"
    using st credential_events_accepted [OF es(2)] by (simp add: stagesOf_def)
  show ?thesis
  proof (cases r)
    case (Inl e)
    with ev have "makeRequest p c m ep w = (Inl e, p, c', w')"
      by (simp add: makeRequest_def)
    with ev Inl es(1) cred show ?thesis by (simp add: newEvents_def)
  next
    case (Inr u)
    let ?rest = "requestQueue_add
            (\<lambda>v. case circuitBreaker p of
                    Some b \<Rightarrow>
                      (case circuitBreaker_execute b
                              (executeWithRetry (retryPolicy p) (operation p c' m ep)) v of
                         (res, b', v') \<Rightarrow> (res, p\<lparr>circuitBreaker := Some b'\<rparr>, c', v'))
                  | None \<Rightarrow>
                      (case executeWithRetry (retryPolicy p) (operation p c' m ep) v of
                         (res, v') \<Rightarrow> (res, p, c', v')))
            w'"
    from Inr ev have mk: "makeRequest p c m ep w = ?rest" by (simp add: makeRequest_def)
    from queued_pipeline_order [of p c' m ep w'] obtain es2 ph' where
      es2: "trace (snd (snd (snd ?rest))) = trace w' @ es2"
        "runOrder (stagesOf p) Credential es2 = Some ph'" "ph' \<noteq> Start" "ph' \<noteq> Credential"
      by blast
    have "newEvents w (snd (snd (snd (makeRequest p c m ep w))))
            = (Enter EnsureValidToken # es) @ es2"
      using mk es(1) es2(1) by (simp add: newEvents_def)
    moreover have "runOrder (stagesOf p) Start ((Enter EnsureValidToken # es) @ es2) = Some ph'"
      using cred es2(2) by (subst runOrder_append) simp
    ultimately show ?thesis using ev Inr es2(3,4) by simp
  qed
qed

theorem makeRequest_stage_order_witness:
  "fst (ensureValidToken signedInClient unavailableOnce) = Inr ()
   \<and> runOrder (stagesOf plainPipeline) Start
        (newEvents unavailableOnce (snd (snd (snd retriedCall)))) = Some (Called 2)
   \<and> fst retriedCall = Inr (JObj [(''data'', JArr [])])"
proof -
  have ok: "fst (ensureValidToken signedInClient unavailableOnce) = Inr ()"
    by (simp add: signedInClient_def unavailableOnce_def run_defs)
  have tr: "newEvents unavailableOnce (snd (snd (snd retriedCall)))
      = [Enter EnsureValidToken, Enter QueueAdmission, Enter CircuitBreakerGate,
         Enter (RetryAttempt 1), Enter RateLimiterAcquire,
         Fetch (ApiRequest ''GET'' (''/campaigns/7'', []) (Some (JStr ''a1''))),
         Sleep 1000,
         Enter (RetryAttempt 2), Enter RateLimiterAcquire,
         Fetch (ApiRequest ''GET'' (''/campaigns/7'', []) (Some (JStr ''a1'')))]"
    by (simp add: retriedCall_def makeRequest_def requestQueue_add_def circuitBreaker_execute_def
        afterOutcome_def unavailableOnce_def executor_defs run_defs retry_unfold)
  have res: "fst retriedCall = Inr (JObj [(''data'', JArr [])])"
    by (simp add: retriedCall_def makeRequest_def requestQueue_add_def circuitBreaker_execute_def
        afterOutcome_def unavailableOnce_def executor_defs run_defs retry_unfold)
  from makeRequest_stage_order
         [of plainPipeline unavailableOnce signedInClient "''GET''" campaign7]
  obtain ph where
    ph: "runOrder (stagesOf plainPipeline) Start
           (newEvents unavailableOnce (snd (snd (snd retriedCall)))) = Some ph"
    unfolding retriedCall_def by blast
  moreover have "runOrder (stagesOf plainPipeline) Start
        (newEvents unavailableOnce (snd (snd (snd retriedCall)))) = Some (Called 2)"
    by (subst tr) (simp add: stagesOf_def observedOrder_def plainPipeline_def)
  ultimately show ?thesis using ok res by simp
qed

text \<open>
  C1, the claim as stated fails: a call that the service answers with 503 and then with
  200 validates the credential once, before queue admission, and not inside either of its
  two attempts; its events are out of the order that the spec words.
\<close>

theorem makeRequest_credential_first_counterexample:
  "newEvents unavailableOnce (snd (snd (snd retriedCall)))
      = [Enter EnsureValidToken, Enter QueueAdmission, Enter CircuitBreakerGate,
         Enter (RetryAttempt 1), Enter RateLimiterAcquire,
         Fetch (ApiRequest ''GET'' (''/campaigns/7'', []) (Some (JStr ''a1''))),
         Sleep 1000,
         Enter (RetryAttempt 2), Enter RateLimiterAcquire,
         Fetch (ApiRequest ''GET'' (''/campaigns/7'', []) (Some (JStr ''a1'')))]
   \<and> runOrder (specifiedOrder (rateLimiter plainPipeline) (circuitBreaker plainPipeline \<noteq> None))
        Start (newEvents unavailableOnce (snd (snd (snd retriedCall)))) = None"
proof -
  have tr: "newEvents unavailableOnce (snd (snd (snd retriedCall)))
      = [Enter EnsureValidToken, Enter QueueAdmission, Enter CircuitBreakerGate,
         Enter (RetryAttempt 1), Enter RateLimiterAcquire,
         Fetch (ApiRequest ''GET'' (''/campaigns/7'', []) (Some (JStr ''a1''))),
         Sleep 1000,
         Enter (RetryAttempt 2), Enter RateLimiterAcquire,
         Fetch (ApiRequest ''GET'' (''/campaigns/7'', []) (Some (JStr ''a1'')))]"
    by (simp add: retriedCall_def makeRequest_def requestQueue_add_def circuitBreaker_execute_def
        afterOutcome_def unavailableOnce_def executor_defs run_defs retry_unfold)
  have "runOrder (specifiedOrder (rateLimiter plainPipeline) (circuitBreaker plainPipeline \<noteq> None))
        Start (newEvents unavailableOnce (snd (snd (snd retriedCall)))) = None"
    by (subst tr) (simp add: specifiedOrder_def)
  with tr show ?thesis by blast
qed

section \<open>Campaign operations: properties\<close>

lemmas pipeline_defs = makeRequest_def requestQueue_add_def circuitBreaker_execute_def
  afterOutcome_def

lemmas campaign_defs = getCampaigns_def getCampaignRevisions_def getCurrentAccountId_def
  campaignApiParams_def campaignFilters_def truthyNum_def truthyStr_def validSortTerms_def
  noParams_def oversizedPage_def fullPage_def revisionsPage_def knownAccount_def healthy_def

text \<open>
  C9 (as amended). \<open>getCampaigns\<close> does reject a call because of its pagination
  parameter: when \<open>per_page\<close> is given and exceeds 50 the call fails with an error, the
  \<open>/campaigns\<close> request is never handed to \<open>makeRequest\<close> (the state is the one that
  resolving the account id left), and unless the sort term is invalid too the error is
  "per_page cannot exceed 50 (API limit)". With \<open>per_page\<close> absent or at most 50 and a
  valid or absent sort term the call is handed to \<open>makeRequest\<close>. The request executor
  itself and \<open>getCampaignRevisions\<close> enforce no such rule: for every \<open>per_page\<close> above 50
  the revisions request is sent with that value and the answer of the backend is returned.
\<close>

theorem per_page_limit_enforced_by_getCampaigns:
  "(truthyNum (p_per_page params) \<and> the (p_per_page params) > 50 \<longrightarrow>
      (\<exists>msg. fst (getCampaigns p c params w) = Inl (JsError msg))
    \<and> snd (getCampaigns p c params w)
        = snd (if truthyNum (p_account_id params)
               then (Some (JNum (the (p_account_id params))), p, c, w)
               else getCurrentAccountId p c w)
    \<and> (\<not> (truthyStr (p_sort params) \<and> the (p_sort params) \<notin> set validSortTerms) \<longrightarrow>
          fst (getCampaigns p c params w) = Inl (JsError ''per_page cannot exceed 50 (API limit)'')))
   \<and> (\<not> (truthyNum (p_per_page params) \<and> the (p_per_page params) > 50)
       \<and> \<not> (truthyStr (p_sort params) \<and> the (p_sort params) \<notin> set validSortTerms) \<longrightarrow>
         getCampaigns p c params w
           = (case (if truthyNum (p_account_id params)
                    then (Some (JNum (the (p_account_id params))), p, c, w)
                    else getCurrentAccountId p c w) of
                (accountId, p1, c1, w1) \<Rightarrow>
                  makeRequest p1 c1 ''GET''
                    (''/campaigns'',
                     campaignApiParams params
                       @ (if truthy accountId then [(''account_id'', the accountId)] else []))
                    w1))
   \<and> (50 < n \<longrightarrow>
         fst (getCampaignRevisions plainPipeline knownAccount ''9'' (revisionsPage n) healthy)
           = Inr (JObj [(''data'', JArr [])])
       \<and> newEvents healthy
            (snd (snd (snd (getCampaignRevisions plainPipeline knownAccount ''9''
                              (revisionsPage n) healthy))))
           = [Enter EnsureValidToken, Enter QueueAdmission, Enter CircuitBreakerGate,
              Enter (RetryAttempt 1), Enter RateLimiterAcquire,
              Fetch (ApiRequest ''GET''
                       (''/campaigns/9/revisions'',
                        [(''page'', JNum 1), (''per_page'', JNum n), (''with_count'', JBool True),
                         (''account_id'', JNum 7)])
                       (Some (JStr ''a1'')))])"
proof (intro conjI impI)
  assume big: "truthyNum (p_per_page params) \<and> the (p_per_page params) > 50"
  obtain a p1 c1 w1 where res: "(if truthyNum (p_account_id params)
               then (Some (JNum (the (p_account_id params))), p, c, w)
               else getCurrentAccountId p c w) = (a, p1, c1, w1)"
    by (cases "(if truthyNum (p_account_id params)
               then (Some (JNum (the (p_account_id params))), p, c, w)
               else getCurrentAccountId p c w)") auto
  show "\<exists>msg. fst (getCampaigns p c params w) = Inl (JsError msg)"
    using big by (simp add: getCampaigns_def res Let_def)
  show "snd (getCampaigns p c params w)
        = snd (if truthyNum (p_account_id params)
               then (Some (JNum (the (p_account_id params))), p, c, w)
               else getCurrentAccountId p c w)"
    using big by (simp add: getCampaigns_def res Let_def)
  show "fst (getCampaigns p c params w) = Inl (JsError ''per_page cannot exceed 50 (API limit)'')"
    if "\<not> (truthyStr (p_sort params) \<and> the (p_sort params) \<notin> set validSortTerms)"
    using big that by (simp add: getCampaigns_def res Let_def)
next
  assume "\<not> (truthyNum (p_per_page params) \<and> the (p_per_page params) > 50)
       \<and> \<not> (truthyStr (p_sort params) \<and> the (p_sort params) \<notin> set validSortTerms)"
  then show "getCampaigns p c params w
           = (case (if truthyNum (p_account_id params)
                    then (Some (JNum (the (p_account_id params))), p, c, w)
                    else getCurrentAccountId p c w) of
                (accountId, p1, c1, w1) \<Rightarrow>
                  makeRequest p1 c1 ''GET''
                    (''/campaigns'',
                     campaignApiParams params
                       @ (if truthy accountId then [(''account_id'', the accountId)] else []))
                    w1)"
    by (auto simp: getCampaigns_def Let_def split: prod.splits)
next
  assume n: "50 < n"
  show "fst (getCampaignRevisions plainPipeline knownAccount ''9'' (revisionsPage n) healthy)
           = Inr (JObj [(''data'', JArr [])])"
    using n by (simp add: campaign_defs pipeline_defs executor_defs run_defs retry_unfold)
  show "newEvents healthy
            (snd (snd (snd (getCampaignRevisions plainPipeline knownAccount ''9''
                              (revisionsPage n) healthy))))
           = [Enter EnsureValidToken, Enter QueueAdmission, Enter CircuitBreakerGate,
              Enter (RetryAttempt 1), Enter RateLimiterAcquire,
              Fetch (ApiRequest ''GET''
                       (''/campaigns/9/revisions'',
                        [(''page'', JNum 1), (''per_page'', JNum n), (''with_count'', JBool True),
                         (''account_id'', JNum 7)])
                       (Some (JStr ''a1'')))]"
    using n by (simp add: campaign_defs pipeline_defs executor_defs run_defs retry_unfold)
qed

theorem per_page_limit_enforced_by_getCampaigns_witness:
  "truthyNum (p_per_page oversizedPage) \<and> the (p_per_page oversizedPage) > 50
   \<and> \<not> (truthyStr (p_sort oversizedPage) \<and> the (p_sort oversizedPage) \<notin> set validSortTerms)
   \<and> fst (getCampaigns plainPipeline signedInClient oversizedPage healthy)
       = Inl (JsError ''per_page cannot exceed 50 (API limit)'')
   \<and> snd (getCampaigns plainPipeline signedInClient oversizedPage healthy)
       = (plainPipeline, signedInClient, healthy)
   \<and> fst (getCampaignRevisions plainPipeline knownAccount ''9'' (revisionsPage 100) healthy)
       = Inr (JObj [(''data'', JArr [])])"
proof -
  have h1: "truthyNum (p_per_page oversizedPage) \<and> the (p_per_page oversizedPage) > 50"
    by (simp add: oversizedPage_def noParams_def truthyNum_def)
  have h2: "\<not> (truthyStr (p_sort oversizedPage) \<and> the (p_sort oversizedPage) \<notin> set validSortTerms)"
    by (simp add: oversizedPage_def noParams_def truthyStr_def)
  have h3: "truthyNum (p_account_id oversizedPage)"
    by (simp add: oversizedPage_def noParams_def truthyNum_def)
  note limit = per_page_limit_enforced_by_getCampaigns
    [where params = oversizedPage and p = plainPipeline and c = signedInClient and w = healthy
       and n = 100]
  from limit h1 h2 have a: "fst (getCampaigns plainPipeline signedInClient oversizedPage healthy)
       = Inl (JsError ''per_page cannot exceed 50 (API limit)'')"
    by blast
  from limit h1 h3 have b: "snd (getCampaigns plainPipeline signedInClient oversizedPage healthy)
       = (plainPipeline, signedInClient, healthy)"
    by simp
  from limit have c: "fst (getCampaignRevisions plainPipeline knownAccount ''9'' (revisionsPage 100) healthy)
       = Inr (JObj [(''data'', JArr [])])"
    by simp
  from h1 h2 a b c show ?thesis by blast
qed

text \<open>
  C9, the claim as stated fails: \<open>getCampaigns\<close> with \<open>per_page = 51\<close> is rejected without
  any request being sent, while the same call with \<open>per_page = 50\<close> is sent and answered.
\<close>

theorem getCampaigns_rejects_per_page_51_counterexample:
  "fst (getCampaigns plainPipeline signedInClient oversizedPage healthy)
     = Inl (JsError ''per_page cannot exceed 50 (API limit)'')
   \<and> newEvents healthy (snd (snd (snd (getCampaigns plainPipeline signedInClient oversizedPage healthy))))
       = []
   \<and> fst (getCampaigns plainPipeline signedInClient fullPage healthy)
       = Inr (JObj [(''data'', JArr [])])
   \<and> newEvents healthy (snd (snd (snd (getCampaigns plainPipeline signedInClient fullPage healthy))))
       = [Enter EnsureValidToken, Enter QueueAdmission, Enter CircuitBreakerGate,
          Enter (RetryAttempt 1), Enter RateLimiterAcquire,
          Fetch (ApiRequest ''GET''
                   (''/campaigns'',
                    [(''sort'', JStr ''-created_on''), (''per_page'', JNum 50),
                     (''account_id'', JNum 7)])
                   (Some (JStr ''a1'')))]"
proof -
  have a: "fst (getCampaigns plainPipeline signedInClient oversizedPage healthy)
     = Inl (JsError ''per_page cannot exceed 50 (API limit)'')"
    by (simp add: campaign_defs)
  have b: "newEvents healthy (snd (snd (snd (getCampaigns plainPipeline signedInClient oversizedPage healthy))))
       = []"
    by (simp add: campaign_defs newEvents_def)
  have c: "fst (getCampaigns plainPipeline signedInClient fullPage healthy)
       = Inr (JObj [(''data'', JArr [])])"
    by (simp add: campaign_defs pipeline_defs executor_defs run_defs retry_unfold)
  have d: "newEvents healthy (snd (snd (snd (getCampaigns plainPipeline signedInClient fullPage healthy))))
       = [Enter EnsureValidToken, Enter QueueAdmission, Enter CircuitBreakerGate,
          Enter (RetryAttempt 1), Enter RateLimiterAcquire,
          Fetch (ApiRequest ''GET''
                   (''/campaigns'',
                    [(''sort'', JStr ''-created_on''), (''per_page'', JNum 50),
                     (''account_id'', JNum 7)])
                   (Some (JStr ''a1'')))]"
    by (simp add: campaign_defs pipeline_defs executor_defs run_defs retry_unfold)
  from a b c d show ?thesis by blast
qed

section \<open>Pagination: properties\<close>

lemma toArray_loop_step:
  "toArray_loop fetchPage per_page page acc s =
     (case fetchPage page s of
        (Inl e, s') \<Rightarrow> Some (Inl e, s')
      | (Inr items, s') \<Rightarrow>
          if length items < per_page then Some (Inr (acc @ items), s')
          else toArray_loop fetchPage per_page (page + 1) (acc @ items) s')"
  by (rule toArray_loop.simps)

lemma toArray_loop_mock:
  assumes "0 < per_page" "1 \<le> page"
  shows "toArray_loop (mockResource xs per_page) per_page page acc served
       = Some (Inr (acc @ drop ((page - 1) * per_page) xs),
               served @ expectedFetches per_page page (length xs - (page - 1) * per_page))"
  using assms(2)
proof (induction "length xs - (page - 1) * per_page" arbitrary: page acc served rule: less_induct)
  case less
  let ?rest = "drop ((page - 1) * per_page) xs"
  let ?n = "length xs - (page - 1) * per_page"
  let ?items = "take per_page ?rest"
  have fetch: "mockResource xs per_page page served = (Inr ?items, served @ [(page, length ?items)])"
    by (simp add: mockResource_def Let_def)
  have len: "length ?items = min per_page ?n" by simp
  show ?case
  proof (cases "?n < per_page")
    case True
    then have "?items = ?rest" by simp
    moreover have "expectedFetches per_page page ?n = [(page, ?n)]"
      using True by (subst expectedFetches.simps) simp
    ultimately show ?thesis
      using True by (subst toArray_loop_step) (simp add: fetch)
  next
    case False
    then have full: "length ?items = per_page" by simp
    have pg: "page * per_page = per_page + (page - 1) * per_page"
      using less.prems by (cases page) simp_all
    have next_rest: "drop (((page + 1) - 1) * per_page) xs = drop per_page ?rest"
      by (simp add: pg)
    have next_n: "length xs - ((page + 1) - 1) * per_page = ?n - per_page"
      by (simp add: pg)
    have smaller: "length xs - ((page + 1) - 1) * per_page < ?n"
      using False assms(1) next_n by simp
    have ih: "toArray_loop (mockResource xs per_page) per_page (page + 1) (acc @ ?items)
                (served @ [(page, per_page)])
          = Some (Inr ((acc @ ?items) @ drop (((page + 1) - 1) * per_page) xs),
                  (served @ [(page, per_page)])
                    @ expectedFetches per_page (page + 1) (length xs - ((page + 1) - 1) * per_page))"
      by (rule less.hyps [OF smaller]) simp
    have ef: "expectedFetches per_page page ?n
                = (page, per_page) # expectedFetches per_page (page + 1) (?n - per_page)"
      using False assms(1) by (subst expectedFetches.simps) simp
    have "toArray_loop (mockResource xs per_page) per_page page acc served
            = toArray_loop (mockResource xs per_page) per_page (page + 1) (acc @ ?items)
                (served @ [(page, per_page)])"
      using full by (subst toArray_loop_step) (simp add: fetch)
    also have "\<dots> = Some (Inr (acc @ ?rest), served @ expectedFetches per_page page ?n)"
      unfolding ih next_rest next_n ef by (simp del: drop_drop)
    finally show ?thesis .
  qed
qed

lemma expectedFetches_125:
  "expectedFetches 50 1 125 = [(1, 50), (2, 50), (3, 25)]"
  by (simp add: expectedFetches.simps [of 50])

text \<open>
  C6. The offset iterator asks for one page after the other: a fetched page with fewer
  items than \<open>per_page\<close> ends the iteration with all items fetched so far, in order; a full
  page is followed by the fetch of the next page number. On a resource of finitely many
  items (and \<open>per_page > 0\<close>) \<open>toArray\<close> therefore returns, with exactly the items of the
  resource in their order, after full pages and one short page. On 125 items with
  \<open>per_page = 50\<close> it returns the 125 items after exactly three fetches, of pages 1, 2
  and 3 with 50, 50 and 25 items.
\<close>

theorem offset_pagination_toArray:
  "(\<forall>items s'. fetchPage page s = (Inr items, s') \<longrightarrow>
       (length items < per_page \<longrightarrow>
          toArray_loop fetchPage per_page page acc s = Some (Inr (acc @ items), s'))
     \<and> (\<not> length items < per_page \<longrightarrow>
          toArray_loop fetchPage per_page page acc s
            = toArray_loop fetchPage per_page (page + 1) (acc @ items) s'))
   \<and> (0 < per_page \<longrightarrow>
         toArray (mockResource xs per_page) per_page []
           = Some (Inr xs, expectedFetches per_page 1 (length xs)))
   \<and> (length xs = 125 \<longrightarrow>
         toArray (mockResource xs 50) 50 [] = Some (Inr xs, [(1, 50), (2, 50), (3, 25)]))"
proof (intro conjI allI impI)
  fix items s'
  assume f: "fetchPage page s = (Inr items, s')"
  show "toArray_loop fetchPage per_page page acc s = Some (Inr (acc @ items), s')"
    if "length items < per_page"
    using that f by (subst toArray_loop_step) simp
  show "toArray_loop fetchPage per_page page acc s
            = toArray_loop fetchPage per_page (page + 1) (acc @ items) s'"
    if "\<not> length items < per_page"
    using that f by (subst toArray_loop_step) simp
next
  assume "0 < per_page"
  from toArray_loop_mock [OF this, of 1 xs "[]" "[]"]
  show "toArray (mockResource xs per_page) per_page []
           = Some (Inr xs, expectedFetches per_page 1 (length xs))"
    by (simp add: toArray_def)
next
  assume "length xs = 125"
  with toArray_loop_mock [of 50 1 xs "[]" "[]"] expectedFetches_125
  show "toArray (mockResource xs 50) 50 [] = Some (Inr xs, [(1, 50), (2, 50), (3, 25)])"
    by (simp add: toArray_def)
qed

theorem offset_pagination_toArray_witness:
  "length [0..<125] = 125
   \<and> toArray (mockResource [0..<125] 50) 50 [] = Some (Inr [0..<125], [(1, 50), (2, 50), (3, 25)])"
proof -
  have len: "length [0..<125] = 125" by simp
  from offset_pagination_toArray
         [where xs = "[0..<125]" and fetchPage = "mockResource [0..<125] 50" and page = 1
            and s = "[]" and per_page = 50 and acc = "[]",
          THEN conjunct2, THEN conjunct2, rule_format, OF len]
  have "toArray (mockResource [0..<125] 50) 50 []
          = Some (Inr [0..<125], [(1, 50), (2, 50), (3, 25)])" .
  with len show ?thesis by (rule conjI)
qed

section \<open>Concurrent callers: properties\<close>

lemma firstTokenRequest_sequential:
  assumes "ensureValidToken c w = (r, c', w')"
  shows "case firstTokenRequest c (clock w) of
           None \<Rightarrow> newEvents w w' = [Enter EnsureValidToken]
         | Some g \<Rightarrow> (\<exists>rest. newEvents w w' = Enter EnsureValidToken # Fetch (TokenRequest g) # rest)"
proof -
  let ?w0 = "emit (Enter EnsureValidToken) w"
  let ?st = "getTokenStatus c (clock w)"
  have w0: "trace ?w0 = trace w @ [Enter EnsureValidToken]" "clock ?w0 = clock w"
    by (simp_all add: emit_def)
  have hr: "hasRefreshToken ?st = truthy (getProp ''refresh_token'' (token c))"
    by (simp add: getTokenStatus_def Let_def)
  consider (mock) "truthy (mockToken c)"
    | (auth) "\<not> truthy (mockToken c)" "\<not> hasToken ?st \<or> isExpired ?st"
    | (refresh) "\<not> truthy (mockToken c)" "hasToken ?st" "\<not> isExpired ?st"
        "needsRefresh ?st" "hasRefreshToken ?st"
    | (valid) "\<not> truthy (mockToken c)" "hasToken ?st" "\<not> isExpired ?st"
        "\<not> (needsRefresh ?st \<and> hasRefreshToken ?st)"
    by blast
  then show ?thesis
  proof cases
    case mock
    with assms have "w' = ?w0" by (simp add: ensureValidToken_branches)
    with mock w0 show ?thesis by (simp add: firstTokenRequest_def newEvents_def)
  next
    case valid
    with assms have "w' = ?w0" by (auto simp: ensureValidToken_branches)
    with valid w0 show ?thesis by (auto simp: firstTokenRequest_def newEvents_def Let_def)
  next
    case auth
    with assms have a: "authenticate c ?w0 = (r, c', w')" by (auto simp: ensureValidToken_branches)
    from authenticate_events(1) [OF a] obtain evs where
      "trace w' = trace ?w0 @
            (if truthy (getProp ''refresh_token'' (token c)) \<and> tokenExpiry c \<noteq> None
                \<and> date_lt (clock ?w0) (date_minus (the (tokenExpiry c)) 300000)
             then Fetch (TokenRequest (RefreshGrant (the (getProp ''refresh_token'' (token c)))))
             else Fetch (TokenRequest PasswordGrant)) # evs"
      by blast
    with w0 auth show ?thesis
      by (auto simp: firstTokenRequest_def newEvents_def Let_def)
  next
    case refresh
    obtain r1 c1 w1 where rf: "refreshToken c ?w0 = (r1, c1, w1)"
      by (cases "refreshToken c ?w0") auto
    from refreshToken_trace [OF rf] refresh(5) hr
    have t1: "trace w1 = trace ?w0
                @ [Fetch (TokenRequest (RefreshGrant (the (getProp ''refresh_token'' (token c)))))]"
      by simp
    have "\<exists>rest. trace w' = trace w1 @ rest"
    proof (cases r1)
      case (Inr u)
      with assms refresh rf have "w' = w1" by (auto simp: ensureValidToken_branches)
      then show ?thesis by simp
    next
      case (Inl e)
      with assms refresh rf have "authenticate c1 w1 = (r, c', w')"
        by (auto simp: ensureValidToken_branches)
      from authenticate_events(1) [OF this] show ?thesis by blast
    qed
    then obtain rest where "trace w' = trace w1 @ rest" by blast
    with t1 w0 have "newEvents w w' = Enter EnsureValidToken
          # Fetch (TokenRequest (RefreshGrant (the (getProp ''refresh_token'' (token c))))) # rest"
      by (simp add: newEvents_def)
    with refresh show ?thesis
      by (auto simp: firstTokenRequest_def Let_def)
  qed
qed

lemma enter_shared: "shared (enter t s) = shared s"
  by (simp add: enter_def split: option.splits)

lemma enterAll_inFlight:
  assumes "\<forall>t \<in> set ts. firstTokenRequest (shared s) t \<noteq> None"
  shows "inFlight (enterAll ts s) = inFlight s @ map (\<lambda>t. the (firstTokenRequest (shared s) t)) ts"
  using assms
proof (induction ts arbitrary: s)
  case Nil
  then show ?case by simp
next
  case (Cons t ts)
  from Cons.prems obtain g where g: "firstTokenRequest (shared s) t = Some g" by auto
  have "\<forall>u \<in> set ts. firstTokenRequest (shared (enter t s)) u \<noteq> None"
    using Cons.prems by (simp add: enter_shared)
  from Cons.IH [OF this] g show ?case by (simp add: enter_def enter_shared)
qed

text \<open>
  C8 (as amended). \<open>ensureValidToken\<close> does not serialize its callers. Each caller that
  enters while the shared credential calls for authentication (missing, expired or due
  for refresh) sends its own token request, whether or not another caller's request is
  still under way; so with \<open>k\<close> such callers entering before any answer arrives, \<open>k\<close>
  authentication requests are in flight at once. The request a caller sends on entering is
  the first request of \<open>ensureValidToken\<close> run on its own.
\<close>

theorem concurrent_callers_each_authenticate:
  "((\<forall>t \<in> set ts. firstTokenRequest c t \<noteq> None) \<longrightarrow>
       inFlight (enterAll ts (idle c)) = map (\<lambda>t. the (firstTokenRequest c t)) ts
     \<and> length (inFlight (enterAll ts (idle c))) = length ts)
   \<and> (\<not> truthy (mockToken c) \<and> \<not> truthy (getProp ''access_token'' (token c)) \<longrightarrow>
         firstTokenRequest c t \<noteq> None)
   \<and> (case firstTokenRequest c (clock w) of
         None \<Rightarrow> newEvents w (snd (snd (ensureValidToken c w))) = [Enter EnsureValidToken]
       | Some g \<Rightarrow>
           (\<exists>rest. newEvents w (snd (snd (ensureValidToken c w)))
                     = Enter EnsureValidToken # Fetch (TokenRequest g) # rest))"
proof (intro conjI impI)
  assume a: "\<forall>t \<in> set ts. firstTokenRequest c t \<noteq> None"
  then have "\<forall>t \<in> set ts. firstTokenRequest (shared (idle c)) t \<noteq> None"
    by (simp add: idle_def)
  from enterAll_inFlight [OF this]
  show "inFlight (enterAll ts (idle c)) = map (\<lambda>t. the (firstTokenRequest c t)) ts"
    by (simp add: idle_def)
  then show "length (inFlight (enterAll ts (idle c))) = length ts" by simp
next
  assume "\<not> truthy (mockToken c) \<and> \<not> truthy (getProp ''access_token'' (token c))"
  then show "firstTokenRequest c t \<noteq> None"
    by (simp add: firstTokenRequest_def getTokenStatus_def Let_def)
next
  obtain r c' w' where e: "ensureValidToken c w = (r, c', w')"
    by (cases "ensureValidToken c w") auto
  have w': "snd (snd (ensureValidToken c w)) = w'" by (simp add: e)
  from firstTokenRequest_sequential [OF e]
  show "case firstTokenRequest c (clock w) of
         None \<Rightarrow> newEvents w (snd (snd (ensureValidToken c w))) = [Enter EnsureValidToken]
       | Some g \<Rightarrow>
           (\<exists>rest. newEvents w (snd (snd (ensureValidToken c w)))
                     = Enter EnsureValidToken # Fetch (TokenRequest g) # rest)"
    unfolding w' .
qed

theorem concurrent_callers_each_authenticate_witness:
  "firstTokenRequest freshClient 1000 = Some PasswordGrant
   \<and> firstTokenRequest freshClient 1001 = Some PasswordGrant
   \<and> inFlight (enterAll [1000, 1001] (idle freshClient)) = [PasswordGrant, PasswordGrant]"
proof -
  have h1: "firstTokenRequest freshClient 1000 = Some PasswordGrant"
    by (simp add: firstTokenRequest_def freshClient_def getTokenStatus_def)
  have h2: "firstTokenRequest freshClient 1001 = Some PasswordGrant"
    by (simp add: firstTokenRequest_def freshClient_def getTokenStatus_def)
  have h: "\<forall>t \<in> set [1000, 1001]. firstTokenRequest freshClient t \<noteq> None"
    using h1 h2 by simp
  from concurrent_callers_each_authenticate [where c = freshClient and ts = "[1000, 1001]"] h
  have "inFlight (enterAll [1000, 1001] (idle freshClient))
          = map (\<lambda>t. the (firstTokenRequest freshClient t)) [1000, 1001]"
    by blast
  then have "inFlight (enterAll [1000, 1001] (idle freshClient)) = [PasswordGrant, PasswordGrant]"
    using h1 h2 by simp
  with h1 h2 show ?thesis by blast
qed

text \<open>
  C8, the claim as stated fails: two callers entering \<open>ensureValidToken\<close> on a client
  without a token, the second before the first caller's request is answered, leave two
  password-grant requests in flight.
\<close>

theorem two_authentications_in_flight_counterexample:
  "inFlight (enter 1001 (enter 1000 (idle freshClient))) = [PasswordGrant, PasswordGrant]
   \<and> \<not> length (inFlight (enter 1001 (enter 1000 (idle freshClient)))) \<le> 1"
  by (simp add: enter_def idle_def firstTokenRequest_def freshClient_def getTokenStatus_def)

end
